theory Spec2Isabelle
  imports Main "HOL-Library.Word" "HOL-Library.AList"
begin

unbundle bit_operations_syntax

section \<open>Entity identity (ECS/Entity.hpp)\<close>

text \<open>
  An \<open>EntityId\<close> is a \<open>uint32_t\<close>: bits 0-19 hold the slot index, bits 20-31 the
  generation. All three functions are pure bit operations on 32-bit words.
\<close>

type_synonym u32 = "32 word"
type_synonym EntityId = u32

definition INDEX_BITS :: nat where
  "INDEX_BITS = 20"

definition GEN_BITS :: nat where
  "GEN_BITS = 12"

definition INDEX_MASK :: u32 where
  "INDEX_MASK = push_bit INDEX_BITS 1 - 1"

definition GEN_MASK :: u32 where
  "GEN_MASK = push_bit GEN_BITS 1 - 1"

definition INVALID_ENTITY :: EntityId where
  "INVALID_ENTITY = - 1"

definition EntityIndex :: "EntityId \<Rightarrow> u32" where
  "EntityIndex eid = eid AND INDEX_MASK"

definition EntityGeneration :: "EntityId \<Rightarrow> u32" where
  "EntityGeneration eid = drop_bit INDEX_BITS eid AND GEN_MASK"

definition MakeEntity :: "u32 \<Rightarrow> u32 \<Rightarrow> EntityId" where
  "MakeEntity idx gen = push_bit INDEX_BITS (gen AND GEN_MASK) OR (idx AND INDEX_MASK)"

section \<open>Faults\<close>

text \<open>
  The core has no recoverable errors. What can go wrong is an \<open>assert\<close> that fires or a
  \<open>std::vector\<close> access outside the vector's size (undefined behaviour). Each is a
  branch of the model, named after the place in the source.
\<close>

datatype fault =
    Emplace_already_owns
  | Get_not_owned
  | AddComponent_not_alive
  | GetComponent_not_alive
  | GetComponent_not_owned
  | Pool_missing
  | OutOfBounds

definition bindF :: "fault + 'a \<Rightarrow> ('a \<Rightarrow> fault + 'b) \<Rightarrow> fault + 'b" where
  "bindF m f = (case m of Inl e \<Rightarrow> Inl e | Inr x \<Rightarrow> f x)"

text \<open>\<open>std::vector\<close>: \<open>v[i]\<close> read, \<open>v[i] = x\<close>, \<open>pop_back\<close>, \<open>resize(n, x)\<close>.\<close>

definition at :: "'a list \<Rightarrow> u32 \<Rightarrow> fault + 'a" where
  "at xs i = (if unat i < length xs then Inr (xs ! unat i) else Inl OutOfBounds)"

definition put :: "'a list \<Rightarrow> u32 \<Rightarrow> 'a \<Rightarrow> fault + 'a list" where
  "put xs i x = (if unat i < length xs then Inr (xs[unat i := x]) else Inl OutOfBounds)"

definition pop_back :: "'a list \<Rightarrow> fault + 'a list" where
  "pop_back xs = (if xs = [] then Inl OutOfBounds else Inr (butlast xs))"

definition resize :: "'a list \<Rightarrow> nat \<Rightarrow> 'a \<Rightarrow> 'a list" where
  "resize xs n x = take n xs @ replicate (n - length xs) x"

section \<open>Component pool (ECS/ComponentPool.hpp)\<close>

record 'a ComponentPool =
  m_sparse :: "u32 list"
  m_dense :: "u32 list"
  m_data :: "'a list"

definition EMPTY :: u32 where
  "EMPTY = NOT 0"

definition pool_init :: "'a ComponentPool" where
  "pool_init = \<lparr>m_sparse = [], m_dense = [], m_data = []\<rparr>"

definition Size :: "'a ComponentPool \<Rightarrow> nat" where
  "Size p = length (m_dense p)"

definition EntityIndices :: "'a ComponentPool \<Rightarrow> u32 list" where
  "EntityIndices p = m_dense p"

definition Has :: "'a ComponentPool \<Rightarrow> u32 \<Rightarrow> bool" where
  "Has p entityIdx =
     (unat entityIdx < length (m_sparse p) \<and> m_sparse p ! unat entityIdx \<noteq> EMPTY)"

text \<open>
  \<open>Remove\<close>: swap the target with the last dense element, then pop. \<open>last\<close> is the
  \<open>uint32_t\<close> cast of the dense size minus one, as in the source.
\<close>

definition Remove :: "u32 \<Rightarrow> 'a ComponentPool \<Rightarrow> fault + 'a ComponentPool" where
  "Remove entityIdx p =
     (if \<not> Has p entityIdx then Inr p
      else
        let denseIdx = m_sparse p ! unat entityIdx;
            last = (word_of_nat (length (m_dense p)) :: u32) - 1
        in bindF
             (if denseIdx \<noteq> last then
                bindF (at (m_dense p) last) (\<lambda>lastEntityIdx.
                bindF (put (m_dense p) denseIdx lastEntityIdx) (\<lambda>d.
                bindF (at (m_data p) last) (\<lambda>v.
                bindF (put (m_data p) denseIdx v) (\<lambda>dt.
                bindF (put (m_sparse p) lastEntityIdx denseIdx) (\<lambda>s.
                Inr (p\<lparr>m_sparse := s, m_dense := d, m_data := dt\<rparr>))))))
              else Inr p)
             (\<lambda>p1.
                bindF (pop_back (m_dense p1)) (\<lambda>d.
                bindF (pop_back (m_data p1)) (\<lambda>dt.
                bindF (put (m_sparse p1) entityIdx EMPTY) (\<lambda>s.
                Inr (p1\<lparr>m_sparse := s, m_dense := d, m_data := dt\<rparr>))))))"

definition Clear_pool :: "'a ComponentPool \<Rightarrow> 'a ComponentPool" where
  "Clear_pool p = p\<lparr>m_sparse := [], m_dense := [], m_data := []\<rparr>"

text \<open>
  \<open>Emplace\<close>: \<open>entityIdx + 1\<close> is computed in \<open>uint32_t\<close>, so it wraps to 0 for the
  index \<open>0xFFFFFFFF\<close>; the write to \<open>m_sparse[entityIdx]\<close> is then out of range.
\<close>

definition Emplace :: "u32 \<Rightarrow> 'a \<Rightarrow> 'a ComponentPool \<Rightarrow> fault + 'a ComponentPool" where
  "Emplace entityIdx v p =
     (let p1 = (if unat entityIdx \<ge> length (m_sparse p)
                then p\<lparr>m_sparse := resize (m_sparse p) (unat (entityIdx + 1)) EMPTY\<rparr>
                else p)
      in if Has p1 entityIdx then Inl Emplace_already_owns
         else
           let denseIdx = (word_of_nat (length (m_dense p1)) :: u32)
           in bindF (put (m_sparse p1) entityIdx denseIdx) (\<lambda>s.
              Inr (p1\<lparr>m_sparse := s,
                      m_dense := m_dense p1 @ [entityIdx],
                      m_data := m_data p1 @ [v]\<rparr>)))"

definition Get :: "'a ComponentPool \<Rightarrow> u32 \<Rightarrow> fault + 'a" where
  "Get p entityIdx =
     (if \<not> Has p entityIdx then Inl Get_not_owned
      else at (m_data p) (m_sparse p ! unat entityIdx))"

text \<open>A sequence of calls on one pool stops at the first fault.\<close>

datatype 'a pool_call = Call_Emplace u32 'a | Call_Remove u32

fun pool_step :: "'a pool_call \<Rightarrow> 'a ComponentPool \<Rightarrow> fault + 'a ComponentPool" where
  "pool_step (Call_Emplace i v) p = Emplace i v p"
| "pool_step (Call_Remove i) p = Remove i p"

fun pool_run :: "'a pool_call list \<Rightarrow> 'a ComponentPool \<Rightarrow> fault + 'a ComponentPool" where
  "pool_run [] p = Inr p"
| "pool_run (c # cs) p = bindF (pool_step c p) (pool_run cs)"

text \<open>
  \<open>calls_fresh cs p\<close>: in the sequence \<open>cs\<close>, started on \<open>p\<close>, every \<open>Emplace\<close> is on an
  index the pool does not hold at that moment, and that index is not \<open>0xFFFFFFFF\<close>. The
  condition speaks of the calls only: it asks nothing of a call that follows a fault.
\<close>

fun calls_fresh :: "'a pool_call list \<Rightarrow> 'a ComponentPool \<Rightarrow> bool" where
  "calls_fresh [] p = True"
| "calls_fresh (c # cs) p =
     ((case c of
         Call_Emplace i v \<Rightarrow> \<not> Has p i \<and> i \<noteq> 4294967295
       | Call_Remove i \<Rightarrow> True) \<and>
      (case pool_step c p of
         Inl f \<Rightarrow> True
       | Inr p' \<Rightarrow> calls_fresh cs p'))"

text \<open>
  The sparse-set invariant: sparse and dense are inverse to each other on the live
  entries, dense and data are parallel, and the sparse array is shorter than \<open>2^32\<close>.
\<close>

definition pool_inv :: "'a ComponentPool \<Rightarrow> bool" where
  "pool_inv p \<longleftrightarrow>
     length (m_sparse p) < 2 ^ 32 \<and>
     length (m_data p) = length (m_dense p) \<and>
     (\<forall>i < length (m_dense p).
        unat (m_dense p ! i) < length (m_sparse p) \<and>
        unat (m_sparse p ! unat (m_dense p ! i)) = i) \<and>
     (\<forall>e < length (m_sparse p).
        m_sparse p ! e \<noteq> EMPTY \<longrightarrow>
        unat (m_sparse p ! e) < length (m_dense p) \<and>
        unat (m_dense p ! unat (m_sparse p ! e)) = e)"


text \<open>
  Proof helper, not part of the source: the sparse array after \<open>Emplace\<close> has grown it to
  hold index \<open>e\<close> (no change when it is long enough already).
\<close>

definition grow :: "u32 list \<Rightarrow> u32 \<Rightarrow> u32 list" where
  "grow sp e = sp @ replicate (Suc (unat e) - length sp) EMPTY"

section \<open>Registry (ECS/Registry.hpp)\<close>

text \<open>
  Component types are keys of type \<open>'k\<close> (the \<open>std::type_index\<close>); the type-erased pools
  all store values of one type \<open>'a\<close>. \<open>m_pools\<close> is an association list with distinct
  keys; \<open>m_freeList\<close> is the queue, front first.
\<close>

record ('k, 'a) Registry =
  m_alive :: "EntityId list"
  m_generations :: "u32 list"
  m_freeList :: "u32 list"
  m_pools :: "('k \<times> 'a ComponentPool) list"

definition Registry_init :: "('k, 'a) Registry" where
  "Registry_init = \<lparr>m_alive = [], m_generations = [], m_freeList = [], m_pools = []\<rparr>"

definition IsAlive :: "('k, 'a) Registry \<Rightarrow> EntityId \<Rightarrow> bool" where
  "IsAlive r eid =
     (let idx = EntityIndex eid
      in unat idx < length (m_generations r) \<and>
         EntityGeneration eid = m_generations r ! unat idx)"

definition CreateEntity :: "('k, 'a) Registry \<Rightarrow> fault + EntityId \<times> ('k, 'a) Registry" where
  "CreateEntity r =
     (let (idx, r1) =
            (if m_freeList r \<noteq> []
             then (hd (m_freeList r), r\<lparr>m_freeList := tl (m_freeList r)\<rparr>)
             else (word_of_nat (length (m_generations r)),
                   r\<lparr>m_generations := m_generations r @ [0]\<rparr>))
      in bindF (at (m_generations r1) idx) (\<lambda>gen.
         let eid = MakeEntity idx gen
         in Inr (eid, r1\<lparr>m_alive := m_alive r1 @ [eid]\<rparr>)))"

fun Remove_from_pools ::
  "u32 \<Rightarrow> ('k \<times> 'a ComponentPool) list \<Rightarrow> fault + ('k \<times> 'a ComponentPool) list" where
  "Remove_from_pools idx [] = Inr []"
| "Remove_from_pools idx ((ti, pool) # ps) =
     bindF (Remove idx pool) (\<lambda>pool'.
     bindF (Remove_from_pools idx ps) (\<lambda>ps'.
     Inr ((ti, pool') # ps')))"

definition DestroyEntity :: "EntityId \<Rightarrow> ('k, 'a) Registry \<Rightarrow> fault + ('k, 'a) Registry" where
  "DestroyEntity eid r =
     (if \<not> IsAlive r eid then Inr r
      else
        let idx = EntityIndex eid
        in bindF (Remove_from_pools idx (m_pools r)) (\<lambda>ps.
           bindF (at (m_generations r) idx) (\<lambda>g.
           bindF (put (m_generations r) idx (g + 1)) (\<lambda>gens.
           Inr (r\<lparr>m_pools := ps,
                  m_generations := gens,
                  m_freeList := m_freeList r @ [idx],
                  m_alive := remove1 eid (m_alive r)\<rparr>)))))"

definition Clear :: "('k, 'a) Registry \<Rightarrow> ('k, 'a) Registry" where
  "Clear r = r\<lparr>m_alive := [], m_generations := [], m_freeList := [],
               m_pools := map (\<lambda>(ti, pool). (ti, Clear_pool pool)) (m_pools r)\<rparr>"

definition PoolPtr :: "'k \<Rightarrow> ('k, 'a) Registry \<Rightarrow> 'a ComponentPool option" where
  "PoolPtr k r = map_of (m_pools r) k"

text \<open>\<open>Pool<T>()\<close> creates the pool when it does not exist yet.\<close>

definition Pool :: "'k \<Rightarrow> ('k, 'a) Registry \<Rightarrow> 'a ComponentPool \<times> ('k, 'a) Registry" where
  "Pool k r =
     (case map_of (m_pools r) k of
        None \<Rightarrow> (pool_init, r\<lparr>m_pools := m_pools r @ [(k, pool_init)]\<rparr>)
      | Some p \<Rightarrow> (p, r))"

definition AddComponent ::
  "'k \<Rightarrow> EntityId \<Rightarrow> 'a \<Rightarrow> ('k, 'a) Registry \<Rightarrow> fault + ('k, 'a) Registry" where
  "AddComponent k eid v r =
     (if \<not> IsAlive r eid then Inl AddComponent_not_alive
      else
        let (pool, r1) = Pool k r
        in bindF (Emplace (EntityIndex eid) v pool) (\<lambda>pool'.
           Inr (r1\<lparr>m_pools := AList.update k pool' (m_pools r1)\<rparr>)))"

definition HasComponent :: "'k \<Rightarrow> EntityId \<Rightarrow> ('k, 'a) Registry \<Rightarrow> bool" where
  "HasComponent k eid r =
     (case PoolPtr k r of None \<Rightarrow> False | Some p \<Rightarrow> Has p (EntityIndex eid))"

definition GetComponent :: "'k \<Rightarrow> EntityId \<Rightarrow> ('k, 'a) Registry \<Rightarrow> fault + 'a" where
  "GetComponent k eid r =
     (if \<not> IsAlive r eid then Inl GetComponent_not_alive
      else if \<not> HasComponent k eid r then Inl GetComponent_not_owned
      else Get (fst (Pool k r)) (EntityIndex eid))"

definition RemoveComponent ::
  "'k \<Rightarrow> EntityId \<Rightarrow> ('k, 'a) Registry \<Rightarrow> fault + ('k, 'a) Registry" where
  "RemoveComponent k eid r =
     (case PoolPtr k r of
        None \<Rightarrow> Inr r
      | Some p \<Rightarrow>
          bindF (Remove (EntityIndex eid) p) (\<lambda>p'.
          Inr (r\<lparr>m_pools := AList.update k p' (m_pools r)\<rparr>)))"

text \<open>\<open>GetOrAdd\<close> default-constructs the component; the default value is a parameter.\<close>

definition GetOrAdd ::
  "'k \<Rightarrow> EntityId \<Rightarrow> 'a \<Rightarrow> ('k, 'a) Registry \<Rightarrow> fault + 'a \<times> ('k, 'a) Registry" where
  "GetOrAdd k eid dflt r =
     bindF (if \<not> HasComponent k eid r then AddComponent k eid dflt r else Inr r) (\<lambda>r1.
     bindF (GetComponent k eid r1) (\<lambda>c. Inr (c, r1)))"

subsection \<open>Queries\<close>

definition HasAt :: "'k \<Rightarrow> u32 \<Rightarrow> ('k, 'a) Registry \<Rightarrow> bool" where
  "HasAt k idx r = (case PoolPtr k r of None \<Rightarrow> False | Some p \<Rightarrow> Has p idx)"

definition HasAllAt :: "'k list \<Rightarrow> u32 \<Rightarrow> ('k, 'a) Registry \<Rightarrow> bool" where
  "HasAllAt ks idx r = list_all (\<lambda>k. HasAt k idx r) ks"

text \<open>
  \<open>FindSmallestPool\<close>: the array of pool pointers is built first; the loop returns
  \<open>nullptr\<close> at the first missing pool and otherwise keeps the first pool of strictly
  smaller size. \<open>minSize\<close> starts at \<open>~size_t(0)\<close>, taken as \<open>2^64 - 1\<close>.
\<close>

fun FindSmallestPool_loop ::
  "'a ComponentPool option list \<Rightarrow> 'a ComponentPool option \<Rightarrow> nat \<Rightarrow> 'a ComponentPool option" where
  "FindSmallestPool_loop [] result minSize = result"
| "FindSmallestPool_loop (p # ps) result minSize =
     (case p of
        None \<Rightarrow> None
      | Some pool \<Rightarrow>
          if Size pool < minSize then FindSmallestPool_loop ps (Some pool) (Size pool)
          else FindSmallestPool_loop ps result minSize)"

definition FindSmallestPool :: "'k list \<Rightarrow> ('k, 'a) Registry \<Rightarrow> 'a ComponentPool option" where
  "FindSmallestPool ks r =
     FindSmallestPool_loop (map (\<lambda>k. PoolPtr k r) ks) None (2 ^ 64 - 1)"

text \<open>\<open>Pool<Ts>().Get(idx)...\<close>: one component per listed type.\<close>

fun Get_all :: "'k list \<Rightarrow> u32 \<Rightarrow> ('k, 'a) Registry \<Rightarrow> fault + 'a list \<times> ('k, 'a) Registry" where
  "Get_all [] idx r = Inr ([], r)"
| "Get_all (k # ks) idx r =
     (let (pool, r1) = Pool k r
      in bindF (Get pool idx) (\<lambda>c.
         bindF (Get_all ks idx r1) (\<lambda>(cs, r2).
         Inr (c # cs, r2))))"

text \<open>
  A visitor is a callback that receives the entity id and the components and may call
  back into the registry: a state transformer that can fault. \<open>View\<close> and \<open>Each\<close> return,
  next to the final registry, the ids the visitor was invoked with, in order.
\<close>

type_synonym ('k, 'a) view_fn =
  "EntityId \<Rightarrow> 'a list \<Rightarrow> ('k, 'a) Registry \<Rightarrow> fault + ('k, 'a) Registry"

type_synonym ('k, 'a) each_fn =
  "EntityId \<Rightarrow> 'a \<Rightarrow> ('k, 'a) Registry \<Rightarrow> fault + ('k, 'a) Registry"

fun View_loop ::
  "'k list \<Rightarrow> ('k, 'a) view_fn \<Rightarrow> u32 list \<Rightarrow> ('k, 'a) Registry \<Rightarrow>
   fault + EntityId list \<times> ('k, 'a) Registry" where
  "View_loop ks fn [] r = Inr ([], r)"
| "View_loop ks fn (idx # rest) r =
     (if \<not> HasAllAt ks idx r then View_loop ks fn rest r
      else if unat idx \<ge> length (m_generations r) then View_loop ks fn rest r
      else
        let eid = MakeEntity idx (m_generations r ! unat idx)
        in bindF (Get_all ks idx r) (\<lambda>(cs, r1).
           bindF (fn eid cs r1) (\<lambda>r2.
           bindF (View_loop ks fn rest r2) (\<lambda>(visited, r3).
           Inr (eid # visited, r3)))))"

definition View ::
  "'k list \<Rightarrow> ('k, 'a) view_fn \<Rightarrow> ('k, 'a) Registry \<Rightarrow>
   fault + EntityId list \<times> ('k, 'a) Registry" where
  "View ks fn r =
     (case FindSmallestPool ks r of
        None \<Rightarrow> Inr ([], r)
      | Some smallest \<Rightarrow>
          if Size smallest = 0 then Inr ([], r)
          else View_loop ks fn (EntityIndices smallest) r)"

text \<open>
  \<open>Each\<close> keeps the pool pointer \<open>p\<close> across the loop; pools are never deallocated, so
  \<open>p->Get(idx)\<close> reads the current pool of the type.
\<close>

definition Each_Get :: "'k \<Rightarrow> u32 \<Rightarrow> ('k, 'a) Registry \<Rightarrow> fault + 'a" where
  "Each_Get k idx r =
     (case PoolPtr k r of None \<Rightarrow> Inl Pool_missing | Some p \<Rightarrow> Get p idx)"

fun Each_loop ::
  "'k \<Rightarrow> ('k, 'a) each_fn \<Rightarrow> u32 list \<Rightarrow> ('k, 'a) Registry \<Rightarrow>
   fault + EntityId list \<times> ('k, 'a) Registry" where
  "Each_loop k fn [] r = Inr ([], r)"
| "Each_loop k fn (idx # rest) r =
     (if unat idx \<ge> length (m_generations r) then Each_loop k fn rest r
      else
        let eid = MakeEntity idx (m_generations r ! unat idx)
        in bindF (Each_Get k idx r) (\<lambda>c.
           bindF (fn eid c r) (\<lambda>r1.
           bindF (Each_loop k fn rest r1) (\<lambda>(visited, r2).
           Inr (eid # visited, r2)))))"

definition Each ::
  "'k \<Rightarrow> ('k, 'a) each_fn \<Rightarrow> ('k, 'a) Registry \<Rightarrow>
   fault + EntityId list \<times> ('k, 'a) Registry" where
  "Each k fn r =
     (case PoolPtr k r of
        None \<Rightarrow> Inr ([], r)
      | Some p \<Rightarrow>
          if Size p = 0 then Inr ([], r)
          else Each_loop k fn (EntityIndices p) r)"

subsection \<open>Sequences of registry calls\<close>

datatype ('k, 'a) reg_call =
    Call_CreateEntity
  | Call_DestroyEntity EntityId
  | Call_AddComponent 'k EntityId 'a
  | Call_RemoveComponent 'k EntityId
  | Call_GetOrAdd 'k EntityId 'a
  | Call_Clear

fun reg_step :: "('k, 'a) reg_call \<Rightarrow> ('k, 'a) Registry \<Rightarrow> fault + ('k, 'a) Registry" where
  "reg_step Call_CreateEntity r = bindF (CreateEntity r) (\<lambda>(eid, r'). Inr r')"
| "reg_step (Call_DestroyEntity eid) r = DestroyEntity eid r"
| "reg_step (Call_AddComponent k eid v) r = AddComponent k eid v r"
| "reg_step (Call_RemoveComponent k eid) r = RemoveComponent k eid r"
| "reg_step (Call_GetOrAdd k eid v) r = bindF (GetOrAdd k eid v r) (\<lambda>(c, r'). Inr r')"
| "reg_step Call_Clear r = Inr (Clear r)"

fun reg_run :: "('k, 'a) reg_call list \<Rightarrow> ('k, 'a) Registry \<Rightarrow> fault + ('k, 'a) Registry" where
  "reg_run [] r = Inr r"
| "reg_run (c # cs) r = bindF (reg_step c r) (reg_run cs)"

text \<open>
  Well-formedness of a registry, kept by every call: pool keys are distinct, every pool is
  a sparse set, every index held by a pool is a slot below \<open>2^20\<close> whose stored generation
  fits the handle's 12 bits, and the free list holds existing slots.
\<close>

definition reg_inv :: "('k, 'a) Registry \<Rightarrow> bool" where
  "reg_inv r \<longleftrightarrow>
     distinct (map fst (m_pools r)) \<and>
     (\<forall>(k, p) \<in> set (m_pools r).
        pool_inv p \<and>
        (\<forall>idx \<in> set (m_dense p).
           unat idx < length (m_generations r) \<and>
           unat idx < 2 ^ 20 \<and>
           unat (m_generations r ! unat idx) < 2 ^ 12)) \<and>
     (\<forall>idx \<in> set (m_freeList r). unat idx < length (m_generations r))"

subsection \<open>Drivers and closed forms for the entity lifecycle\<close>

text \<open>
  \<open>recycle n\<close>: \<open>n\<close> times, destroy the entity last created and create the next one.
  Returns the last handle with the registry.
\<close>

fun recycle ::
  "nat \<Rightarrow> EntityId \<times> ('k, 'a) Registry \<Rightarrow> fault + EntityId \<times> ('k, 'a) Registry" where
  "recycle 0 er = Inr er"
| "recycle (Suc n) er =
     bindF (DestroyEntity (fst er) (snd er)) (\<lambda>r1.
     bindF (CreateEntity r1) (recycle n))"

text \<open>The registry with the single slot 0, alive, at stored generation \<open>g\<close>, without pools.\<close>

definition one_slot :: "u32 \<Rightarrow> ('k, 'a) Registry" where
  "one_slot g = \<lparr>m_alive = [MakeEntity 0 g], m_generations = [g], m_freeList = [],
                 m_pools = []\<rparr>"

text \<open>The registry with the single slot 0, destroyed, at stored generation \<open>g\<close>.\<close>

definition freed_slot :: "u32 \<Rightarrow> ('k, 'a) Registry" where
  "freed_slot g = \<lparr>m_alive = [], m_generations = [g], m_freeList = [0], m_pools = []\<rparr>"

text \<open>The registry after \<open>n\<close> calls of \<open>CreateEntity\<close> on the empty registry.\<close>

definition fresh_slots :: "nat \<Rightarrow> ('k, 'a) Registry" where
  "fresh_slots n = \<lparr>m_alive = map (\<lambda>i. MakeEntity (word_of_nat i) 0) [0..<n],
                    m_generations = replicate n 0, m_freeList = [], m_pools = []\<rparr>"

text \<open>The slot index the next \<open>CreateEntity\<close> uses.\<close>

definition next_slot :: "('k, 'a) Registry \<Rightarrow> u32" where
  "next_slot r =
     (if m_freeList r \<noteq> [] then hd (m_freeList r)
      else word_of_nat (length (m_generations r)))"

text \<open>The generation table only grows, slot by slot.\<close>

definition gens_le :: "('k, 'a) Registry \<Rightarrow> ('k, 'a) Registry \<Rightarrow> bool" where
  "gens_le r r' \<longleftrightarrow>
     length (m_generations r) \<le> length (m_generations r') \<and>
     (\<forall>j < length (m_generations r).
        unat (m_generations r ! j) \<le> unat (m_generations r' ! j))"

text \<open>Two component types for concrete scenarios.\<close>

datatype component_type = Position | Velocity

subsection \<open>Callbacks used in the statements about \<open>Each\<close>\<close>

text \<open>
  \<open>owns_all k idxs r\<close>: the pool of type \<open>k\<close> exists, is a sparse set, and holds a
  component for every index of \<open>idxs\<close>.
\<close>

definition owns_all :: "'k \<Rightarrow> u32 list \<Rightarrow> ('k, 'a) Registry \<Rightarrow> bool" where
  "owns_all k idxs r =
     (case PoolPtr k r of
        None \<Rightarrow> False
      | Some p \<Rightarrow> pool_inv p \<and> (\<forall>idx \<in> set idxs. Has p idx))"

text \<open>The index list \<open>Each\<close> copies before its loop (empty when the pool is missing).\<close>

definition Each_snapshot :: "'k \<Rightarrow> ('k, 'a) Registry \<Rightarrow> u32 list" where
  "Each_snapshot k r = (case PoolPtr k r of None \<Rightarrow> [] | Some p \<Rightarrow> EntityIndices p)"

text \<open>The callback body that creates a new entity and attaches a component of type \<open>k\<close> to it.\<close>

definition spawn :: "'k \<Rightarrow> 'a \<Rightarrow> ('k, 'a) Registry \<Rightarrow> fault + ('k, 'a) Registry" where
  "spawn k v r = bindF (CreateEntity r) (\<lambda>(e, r1). AddComponent k e v r1)"

subsection \<open>A scenario with two entities\<close>

text \<open>
  Two entities (handles 0 and 1), each with a \<open>Position\<close>; the same registry after the
  entity of slot 1 was destroyed; and after a new entity took slot 1 (generation 1, handle
  \<open>0x100001\<close>) and got a \<open>Position\<close>.
\<close>

definition two_positions :: "(component_type, nat) Registry" where
  "two_positions =
     \<lparr>m_alive = [0, 1], m_generations = [0, 0], m_freeList = [],
      m_pools = [(Position, \<lparr>m_sparse = [0, 1], m_dense = [0, 1], m_data = [10, 11]\<rparr>)]\<rparr>"


definition slot1_respawned :: "(component_type, nat) Registry" where
  "slot1_respawned =
     \<lparr>m_alive = [0, 1048577], m_generations = [0, 1], m_freeList = [],
      m_pools = [(Position, \<lparr>m_sparse = [0, 1], m_dense = [0, 1], m_data = [10, 99]\<rparr>)]\<rparr>"


text \<open>
  A callback that, when it visits the entity with handle 0, destroys the entity with
  handle 1, creates a new entity and attaches a \<open>Position\<close> to it.
\<close>

definition respawn_slot1 :: "(component_type, nat) each_fn" where
  "respawn_slot1 eid c r =
     (if eid = 0 then bindF (DestroyEntity 1 r) (spawn Position 99) else Inr r)"

subsection \<open>What a visitor of \<open>View\<close> may change\<close>

text \<open>
  \<open>View\<close> reads the generation table and, of every pool, the key and the sparse and dense
  arrays; component values are only handed to the visitor. \<open>shape\<close> collects what it reads
  (with the length of \<open>data\<close>, which is parallel to \<open>dense\<close>).
\<close>

definition pool_shape :: "'a ComponentPool \<Rightarrow> u32 list \<times> u32 list \<times> nat" where
  "pool_shape p = (m_sparse p, m_dense p, length (m_data p))"

definition shape ::
  "('k, 'a) Registry \<Rightarrow> u32 list \<times> ('k \<times> u32 list \<times> u32 list \<times> nat) list" where
  "shape r = (m_generations r, map (\<lambda>(k, p). (k, pool_shape p)) (m_pools r))"

text \<open>The part of \<open>reg_inv\<close> that concerns the pools.\<close>

definition pools_inv :: "('k, 'a) Registry \<Rightarrow> bool" where
  "pools_inv r \<longleftrightarrow>
     distinct (map fst (m_pools r)) \<and>
     (\<forall>(k, p) \<in> set (m_pools r).
        pool_inv p \<and>
        (\<forall>idx \<in> set (m_dense p).
           unat idx < length (m_generations r) \<and>
           unat idx < 2 ^ 20 \<and>
           unat (m_generations r ! unat idx) < 2 ^ 12))"

text \<open>
  \<open>visit_all fn ks hs\<close>: the visitor applied once to each handle of \<open>hs\<close>, in order, with
  the components of the listed types fetched for it; stops at the first fault.
\<close>

fun visit_all ::
  "('k, 'a) view_fn \<Rightarrow> 'k list \<Rightarrow> EntityId list \<Rightarrow> ('k, 'a) Registry \<Rightarrow>
   fault + ('k, 'a) Registry" where
  "visit_all fn ks [] r = Inr r"
| "visit_all fn ks (eid # hs) r =
     bindF (Get_all ks (EntityIndex eid) r) (\<lambda>(cs, r1).
     bindF (fn eid cs r1) (visit_all fn ks hs))"

text \<open>
  A write through the reference that \<open>Get\<close> returns: the component of index \<open>idx\<close> in the
  pool of type \<open>k\<close> is replaced by \<open>v\<close>.
\<close>

definition Assign ::
  "'k \<Rightarrow> u32 \<Rightarrow> 'a \<Rightarrow> ('k, 'a) Registry \<Rightarrow> fault + ('k, 'a) Registry" where
  "Assign k idx v r =
     (case PoolPtr k r of
        None \<Rightarrow> Inl Pool_missing
      | Some p \<Rightarrow>
          if \<not> Has p idx then Inl Get_not_owned
          else bindF (put (m_data p) (m_sparse p ! unat idx) v) (\<lambda>d.
               Inr (r\<lparr>m_pools := AList.update k (p\<lparr>m_data := d\<rparr>) (m_pools r)\<rparr>)))"

text \<open>
  The visitor of the usage example in Registry.hpp: the position becomes the sum of the
  components it was given (position and velocity).
\<close>

definition add_velocity :: "(component_type, nat) view_fn" where
  "add_velocity eid cs r = Assign Position (EntityIndex eid) (sum_list cs) r"

text \<open>
  Three entities (handles 0, 1, 2), all with a \<open>Position\<close>, the first and the third with a
  \<open>Velocity\<close>; and the same registry after \<open>add_velocity\<close> has visited handles 0 and 2.
\<close>

definition three_entities :: "(component_type, nat) Registry" where
  "three_entities =
     \<lparr>m_alive = [0, 1, 2], m_generations = [0, 0, 0], m_freeList = [],
      m_pools = [(Position, \<lparr>m_sparse = [0, 1, 2], m_dense = [0, 1, 2], m_data = [10, 11, 12]\<rparr>),
                 (Velocity, \<lparr>m_sparse = [0, EMPTY, 1], m_dense = [0, 2], m_data = [20, 22]\<rparr>)]\<rparr>"

definition three_entities_moved :: "(component_type, nat) Registry" where
  "three_entities_moved =
     \<lparr>m_alive = [0, 1, 2], m_generations = [0, 0, 0], m_freeList = [],
      m_pools = [(Position, \<lparr>m_sparse = [0, 1, 2], m_dense = [0, 1, 2], m_data = [30, 11, 34]\<rparr>),
                 (Velocity, \<lparr>m_sparse = [0, EMPTY, 1], m_dense = [0, 2], m_data = [20, 22]\<rparr>)]\<rparr>"

subsection \<open>What a callback of \<open>Each\<close> may change\<close>



text \<open>
  \<open>intact k r0 r1\<close>: in \<open>r1\<close>, every slot of the snapshot that \<open>Each\<close> took in \<open>r0\<close> still
  owns its component of type \<open>k\<close> and is at the generation it had in \<open>r0\<close> (it has not been
  freed).
\<close>

definition intact :: "'k \<Rightarrow> ('k, 'a) Registry \<Rightarrow> ('k, 'a) Registry \<Rightarrow> bool" where
  "intact k r0 r1 \<longleftrightarrow>
     owns_all k (Each_snapshot k r0) r1 \<and>
     (\<forall>idx \<in> set (Each_snapshot k r0).
        unat idx < length (m_generations r1) \<and>
        m_generations r1 ! unat idx = m_generations r0 ! unat idx)"

text \<open>
  A callback that creates a new entity with a \<open>Position\<close> when it visits the entity with
  handle 0, and does nothing at the other visits.
\<close>

definition spawn_at_first :: "(component_type, nat) each_fn" where
  "spawn_at_first eid c r = (if eid = 0 then spawn Position 99 r else Inr r)"

text \<open>\<open>two_positions\<close> after \<open>spawn_at_first\<close> has run on it, and after \<open>destroy_self\<close> has.\<close>

definition two_positions_spawned :: "(component_type, nat) Registry" where
  "two_positions_spawned =
     \<lparr>m_alive = [0, 1, 2], m_generations = [0, 0, 0], m_freeList = [],
      m_pools = [(Position, \<lparr>m_sparse = [0, 1, 2], m_dense = [0, 1, 2], m_data = [10, 11, 99]\<rparr>)]\<rparr>"


section \<open>The pool invariant\<close>

lemma unat_EMPTY: "unat EMPTY = 4294967295"
  by (simp add: EMPTY_def unsigned_minus_1_eq_mask mask_eq_exp_minus_1)

lemma bindF_Inr [simp]: "bindF (Inr x) f = f x"
  by (simp add: bindF_def)

lemma bindF_Inl [simp]: "bindF (Inl e) f = Inl e"
  by (simp add: bindF_def)

lemma bindF_eq_Inr: "bindF m f = Inr y \<longleftrightarrow> (\<exists>x. m = Inr x \<and> f x = Inr y)"
  by (cases m) auto

lemma pool_inv_init: "pool_inv pool_init"
  by (simp add: pool_inv_def pool_init_def)

lemma pool_inv_dense_inj:
  assumes "pool_inv p"
  shows "inj_on (\<lambda>i. unat (m_dense p ! i)) {..<length (m_dense p)}"
proof (rule inj_onI)
  fix i j assume "i \<in> {..<length (m_dense p)}" "j \<in> {..<length (m_dense p)}"
    and "unat (m_dense p ! i) = unat (m_dense p ! j)"
  with assms show "i = j" unfolding pool_inv_def
    by (metis lessThan_iff)
qed

lemma pool_inv_dense_le:
  assumes "pool_inv p"
  shows "length (m_dense p) \<le> length (m_sparse p)"
proof -
  have "(\<lambda>i. unat (m_dense p ! i)) ` {..<length (m_dense p)} \<subseteq> {..<length (m_sparse p)}"
    using assms by (auto simp: pool_inv_def)
  from card_inj_on_le[OF pool_inv_dense_inj[OF assms] this] show ?thesis by simp
qed

lemma pool_inv_dense_less:
  assumes "pool_inv p" "unat e < length (m_sparse p)" "m_sparse p ! unat e = EMPTY"
  shows "length (m_dense p) < length (m_sparse p)"
proof -
  have len: "length (m_dense p) < 2 ^ 32"
    using pool_inv_dense_le[OF assms(1)] assms(1) by (simp add: pool_inv_def)
  have "(\<lambda>i. unat (m_dense p ! i)) ` {..<length (m_dense p)} \<subseteq> {..<length (m_sparse p)} - {unat e}"
  proof
    fix x assume "x \<in> (\<lambda>i. unat (m_dense p ! i)) ` {..<length (m_dense p)}"
    then obtain i where i: "i < length (m_dense p)" "x = unat (m_dense p ! i)" by auto
    with assms(1) have a: "x < length (m_sparse p)" "unat (m_sparse p ! x) = i"
      by (auto simp: pool_inv_def)
    have "x \<noteq> unat e"
    proof
      assume "x = unat e"
      with a assms(3) have "i = 4294967295" by (simp add: unat_EMPTY)
      moreover have "length (m_dense p) \<le> 4294967295"
        using pool_inv_dense_le[OF assms(1)] assms(1) by (simp add: pool_inv_def)
      ultimately show False using i by simp
    qed
    with a show "x \<in> {..<length (m_sparse p)} - {unat e}" by simp
  qed
  from card_inj_on_le[OF pool_inv_dense_inj[OF assms(1)] this]
  have "length (m_dense p) \<le> card ({..<length (m_sparse p)} - {unat e})" by simp
  also have "\<dots> < length (m_sparse p)" using assms(2)
    by (simp add: card_Diff_singleton_if) 
  finally show ?thesis .
qed


lemma pool_inv_dense_bound:
  assumes "pool_inv p"
  shows "length (m_dense p) < 2 ^ 32"
  using pool_inv_dense_le[OF assms] assms by (simp add: pool_inv_def)

lemma unat_u32_bound: "unat (w :: u32) < 4294967296"
  using unsigned_less[of w, where 'a=nat] by simp

lemma unat_less_EMPTY:
  assumes "e \<noteq> EMPTY"
  shows "unat e < 4294967295"
proof -
  have "unat e \<noteq> unat EMPTY" using assms by (simp add: word_unat_eq_iff)
  with unat_u32_bound[of e] show ?thesis by (simp add: unat_EMPTY)
qed

lemma unat_word_of_nat_u32: "n < 4294967296 \<Longrightarrow> unat (word_of_nat n :: u32) = n"
  by (simp add: unat_of_nat)

lemma unat_succ_u32:
  assumes "e \<noteq> EMPTY"
  shows "unat (e + 1) = Suc (unat e)"
  using unat_less_EMPTY[OF assms] by (simp add: unat_word_ariths)

lemma length_grow: "length (grow sp e) = max (length sp) (Suc (unat e))"
  by (simp add: grow_def)

lemma nth_grow: "i < length (grow sp e) \<Longrightarrow> grow sp e ! i = (if i < length sp then sp ! i else EMPTY)"
  by (auto simp: grow_def nth_append)

lemma Emplace_success:
  assumes "pool_inv p" "\<not> Has p e" "e \<noteq> EMPTY"
  shows "Emplace e v p =
           Inr \<lparr>m_sparse = (grow (m_sparse p) e)[unat e := word_of_nat (length (m_dense p))],
                m_dense = m_dense p @ [e], m_data = m_data p @ [v]\<rparr>"
proof -
  note e1 = unat_succ_u32[OF assms(3)]
  show ?thesis
  proof (cases "length (m_sparse p) \<le> unat e")
    case True
    then have "resize (m_sparse p) (unat (e + 1)) EMPTY = grow (m_sparse p) e"
      by (simp add: resize_def grow_def e1)
    with True show ?thesis
      by (simp add: Emplace_def Let_def Has_def put_def e1 length_grow grow_def nth_append)
  next
    case False
    then have "grow (m_sparse p) e = m_sparse p" by (simp add: grow_def)
    with False assms(2) show ?thesis
      by (simp add: Emplace_def Let_def put_def)
  qed
qed

lemma Emplace_Inr_D:
  assumes "pool_inv p" "Emplace e v p = Inr p'"
  shows "\<not> Has p e \<and> e \<noteq> EMPTY"
proof (intro conjI notI)
  assume h: "Has p e"
  then have "\<not> length (m_sparse p) \<le> unat e" by (simp add: Has_def)
  with h assms(2) show False by (simp add: Emplace_def Let_def)
next
  assume e: "e = EMPTY"
  have "length (m_sparse p) \<le> unat e" using assms(1) by (simp add: pool_inv_def e unat_EMPTY)
  moreover have "e + 1 = 0" by (simp add: e EMPTY_def)
  ultimately show False using assms(2)
    by (simp add: Emplace_def Let_def resize_def Has_def put_def)
qed

lemma pool_inv_Emplace:
  assumes inv: "pool_inv p" and nh: "\<not> Has p e" and ne: "e \<noteq> EMPTY"
  shows "pool_inv \<lparr>m_sparse = (grow (m_sparse p) e)[unat e := word_of_nat (length (m_dense p))],
                m_dense = m_dense p @ [e], m_data = m_data p @ [v]\<rparr>"
proof -
  let ?n = "length (m_dense p)" and ?m = "length (m_sparse p)"
  let ?g = "grow (m_sparse p) e"
  let ?s = "?g[unat e := word_of_nat ?n]"
  note ue = unat_less_EMPTY[OF ne]
  have n32: "?n < 4294967296" using pool_inv_dense_bound[OF inv] by simp
  have un: "unat (word_of_nat ?n :: u32) = ?n" by (rule unat_word_of_nat_u32[OF n32])
  have lg: "length ?g = max ?m (Suc (unat e))" by (rule length_grow)
  have eg: "unat e < length ?g" by (simp add: lg)
  have n_small: "?n < 4294967295"
  proof (cases "unat e < ?m")
    case True
    with nh have "m_sparse p ! unat e = EMPTY" by (simp add: Has_def)
    from pool_inv_dense_less[OF inv True this] inv show ?thesis by (simp add: pool_inv_def)
  next
    case False
    with pool_inv_dense_le[OF inv] ue show ?thesis by simp
  qed
  have nE: "(word_of_nat ?n :: u32) \<noteq> EMPTY"
    using n_small un unat_EMPTY by (metis less_irrefl)
  have dense_ne: "m_dense p ! i \<noteq> e" if "i < ?n" for i
  proof
    assume eq: "m_dense p ! i = e"
    from inv that have a: "unat (m_dense p ! i) < ?m" "unat (m_sparse p ! unat (m_dense p ! i)) = i"
      by (auto simp: pool_inv_def)
    with eq nh have "m_sparse p ! unat e = EMPTY" by (simp add: Has_def)
    with a eq have "i = 4294967295" by (simp add: unat_EMPTY)
    with that n_small show False by simp
  qed
  have c1: "length ?s < 2 ^ 32" using inv ue by (simp add: lg pool_inv_def)
  have c2: "length (m_data p @ [v]) = length (m_dense p @ [e])" using inv by (simp add: pool_inv_def)
  have c3: "unat ((m_dense p @ [e]) ! i) < length ?s \<and> unat (?s ! unat ((m_dense p @ [e]) ! i)) = i"
    if "i < length (m_dense p @ [e])" for i
  proof (cases "i < ?n")
    case True
    from inv True have a: "unat (m_dense p ! i) < ?m" "unat (m_sparse p ! unat (m_dense p ! i)) = i"
      by (auto simp: pool_inv_def)
    have "unat (m_dense p ! i) \<noteq> unat e" using dense_ne[OF True] by (simp add: word_unat_eq_iff)
    with a True show ?thesis by (simp add: nth_append lg nth_grow)
  next
    case False
    with that have "i = ?n" by simp
    then show ?thesis using eg un by (simp add: nth_append)
  qed
  have c4: "unat (?s ! x) < length (m_dense p @ [e]) \<and> unat ((m_dense p @ [e]) ! unat (?s ! x)) = x"
    if "x < length ?s" "?s ! x \<noteq> EMPTY" for x
  proof (cases "x = unat e")
    case True
    with eg un show ?thesis by (simp add: nth_append)
  next
    case False
    with that have gx: "?g ! x \<noteq> EMPTY" "x < length ?g" by simp_all
    then have xm: "x < ?m" "m_sparse p ! x \<noteq> EMPTY" by (auto simp: nth_grow split: if_splits)
    with inv have "unat (m_sparse p ! x) < ?n" "unat (m_dense p ! unat (m_sparse p ! x)) = x"
      by (auto simp: pool_inv_def)
    with False xm gx show ?thesis by (simp add: nth_append nth_grow)
  qed
  show ?thesis
    unfolding pool_inv_def using c1 c2 c3 c4 by simp
qed


lemma Has_dense:
  assumes "pool_inv p" "Has p e"
  shows "unat (m_sparse p ! unat e) < length (m_dense p)"
    and "m_dense p ! unat (m_sparse p ! unat e) = e"
  using assms by (auto simp: pool_inv_def Has_def word_unat_eq_iff)

lemma dense_Has:
  assumes "pool_inv p" "i < length (m_dense p)"
  shows "Has p (m_dense p ! i)" and "unat (m_sparse p ! unat (m_dense p ! i)) = i"
proof -
  from assms have a: "unat (m_dense p ! i) < length (m_sparse p)"
    "unat (m_sparse p ! unat (m_dense p ! i)) = i" by (auto simp: pool_inv_def)
  show "unat (m_sparse p ! unat (m_dense p ! i)) = i" by fact
  have "i < 4294967295" using assms(2) pool_inv_dense_le[OF assms(1)] assms(1)
    by (simp add: pool_inv_def)
  with a(2) have "m_sparse p ! unat (m_dense p ! i) \<noteq> EMPTY" using unat_EMPTY by auto
  with a(1) show "Has p (m_dense p ! i)" by (simp add: Has_def)
qed

lemma last_idx:
  assumes "pool_inv p" "0 < length (m_dense p)"
  shows "unat ((word_of_nat (length (m_dense p)) :: u32) - 1) = length (m_dense p) - 1"
proof -
  have "length (m_dense p) < 4294967296" using pool_inv_dense_bound[OF assms(1)] by simp
  with assms(2) show ?thesis
    by (simp add: unat_minus_one unat_word_of_nat_u32 word_unat_eq_iff)  
qed

lemma Remove_absent: "\<not> Has p e \<Longrightarrow> Remove e p = Inr p"
  by (simp add: Remove_def)

lemma Remove_last:
  assumes "pool_inv p" "Has p e" "unat (m_sparse p ! unat e) = length (m_dense p) - 1"
  shows "Remove e p =
           Inr \<lparr>m_sparse = (m_sparse p)[unat e := EMPTY],
                m_dense = butlast (m_dense p), m_data = butlast (m_data p)\<rparr>"
proof -
  have pos: "0 < length (m_dense p)" using Has_dense(1)[OF assms(1,2)] by (cases "m_dense p") simp_all
  have "m_sparse p ! unat e = word_of_nat (length (m_dense p)) - 1"
    using assms(3) last_idx[OF assms(1) pos] by (simp add: word_unat_eq_iff)
  moreover have "m_dense p \<noteq> []" "m_data p \<noteq> []" using pos assms(1) by (auto simp: pool_inv_def)
  moreover have "unat e < length (m_sparse p)" using assms(2) by (simp add: Has_def)
  ultimately show ?thesis using assms(2)
    by (simp add: Remove_def Let_def pop_back_def put_def)
qed

lemma Remove_swap:
  assumes "pool_inv p" "Has p e" "unat (m_sparse p ! unat e) \<noteq> length (m_dense p) - 1"
  shows "Remove e p =
           Inr \<lparr>m_sparse = (m_sparse p)[unat (last (m_dense p)) := m_sparse p ! unat e, unat e := EMPTY],
                m_dense = butlast ((m_dense p)[unat (m_sparse p ! unat e) := last (m_dense p)]),
                m_data = butlast ((m_data p)[unat (m_sparse p ! unat e) := last (m_data p)])\<rparr>"
proof -
  let ?n = "length (m_dense p)"
  have d: "unat (m_sparse p ! unat e) < ?n" by (rule Has_dense(1)[OF assms(1,2)])
  then have pos: "0 < ?n" by (cases "m_dense p") simp_all
  note li = last_idx[OF assms(1) pos]
  have ne: "m_sparse p ! unat e \<noteq> word_of_nat ?n - 1"
    using assms(3) li by auto
  have nonempty: "m_dense p \<noteq> []" "m_data p \<noteq> []" using pos assms(1) by (auto simp: pool_inv_def)
  have ld: "length (m_data p) = ?n" using assms(1) by (simp add: pool_inv_def)
  have lastd: "m_dense p ! (?n - Suc 0) = last (m_dense p)" "m_data p ! (?n - Suc 0) = last (m_data p)"
    using nonempty ld by (simp_all add: last_conv_nth)
  have le: "unat (last (m_dense p)) < length (m_sparse p)"
    using assms(1) pos lastd(1) unfolding pool_inv_def by (metis diff_less zero_less_Suc)
  have ue: "unat e < length (m_sparse p)" using assms(2) by (simp add: Has_def)
  show ?thesis using assms(2) ne nonempty d pos le ue
    by (simp add: Remove_def Let_def pop_back_def put_def at_def li ld lastd)
qed


lemma pool_inv_Remove_last:
  assumes inv: "pool_inv p" and h: "Has p e"
    and d: "unat (m_sparse p ! unat e) = length (m_dense p) - 1"
  shows "pool_inv \<lparr>m_sparse = (m_sparse p)[unat e := EMPTY],
                m_dense = butlast (m_dense p), m_data = butlast (m_data p)\<rparr>"
proof -
  let ?n = "length (m_dense p)" and ?m = "length (m_sparse p)"
  let ?s = "(m_sparse p)[unat e := EMPTY]"
  have ue: "unat e < ?m" using h by (simp add: Has_def)
  have c3: "unat (butlast (m_dense p) ! i) < length ?s \<and> unat (?s ! unat (butlast (m_dense p) ! i)) = i"
    if "i < length (butlast (m_dense p))" for i
  proof -
    from that have i: "i < ?n - 1" by simp
    then have i': "i < ?n" by simp
    from inv i' have a: "unat (m_dense p ! i) < ?m" "unat (m_sparse p ! unat (m_dense p ! i)) = i"
      by (auto simp: pool_inv_def)
    have "unat (m_dense p ! i) \<noteq> unat e"
    proof
      assume "unat (m_dense p ! i) = unat e"
      with a(2) d i show False by simp
    qed
    with a that show ?thesis by (simp add: nth_butlast)
  qed
  have c4: "unat (?s ! x) < length (butlast (m_dense p)) \<and> unat (butlast (m_dense p) ! unat (?s ! x)) = x"
    if "x < length ?s" "?s ! x \<noteq> EMPTY" for x
  proof -
    from that have xe: "x \<noteq> unat e" by (auto simp: nth_list_update split: if_splits)
    with that have x: "x < ?m" "m_sparse p ! x \<noteq> EMPTY" by simp_all
    with inv have b: "unat (m_sparse p ! x) < ?n" "unat (m_dense p ! unat (m_sparse p ! x)) = x"
      by (auto simp: pool_inv_def)
    have "unat (m_sparse p ! x) \<noteq> ?n - 1"
    proof
      assume "unat (m_sparse p ! x) = ?n - 1"
      with d have "unat (m_sparse p ! x) = unat (m_sparse p ! unat e)" by simp
      with b(2) Has_dense(2)[OF inv h] xe show False by simp
    qed
    with b have "unat (m_sparse p ! x) < ?n - 1" by simp
    with b xe show ?thesis by (simp add: nth_butlast)
  qed
  show ?thesis unfolding pool_inv_def using inv c3 c4 by (simp add: pool_inv_def)
qed

lemma pool_inv_Remove_swap:
  assumes inv: "pool_inv p" and h: "Has p e"
    and d: "unat (m_sparse p ! unat e) \<noteq> length (m_dense p) - 1"
  shows "pool_inv \<lparr>m_sparse = (m_sparse p)[unat (last (m_dense p)) := m_sparse p ! unat e, unat e := EMPTY],
                m_dense = butlast ((m_dense p)[unat (m_sparse p ! unat e) := last (m_dense p)]),
                m_data = butlast ((m_data p)[unat (m_sparse p ! unat e) := last (m_data p)])\<rparr>"
proof -
  let ?n = "length (m_dense p)" and ?m = "length (m_sparse p)"
  let ?le = "last (m_dense p)"
  let ?d = "unat (m_sparse p ! unat e)"
  let ?s = "(m_sparse p)[unat ?le := m_sparse p ! unat e, unat e := EMPTY]"
  let ?ds = "butlast ((m_dense p)[?d := ?le])"
  have ue: "unat e < ?m" using h by (simp add: Has_def)
  have dn: "?d < ?n" by (rule Has_dense(1)[OF inv h])
  with d have dn1: "?d < ?n - 1" by simp
  have ne: "m_dense p \<noteq> []" using dn by (cases "m_dense p") simp_all
  have le_nth: "?le = m_dense p ! (?n - 1)" using ne by (simp add: last_conv_nth)
  have n1: "?n - 1 < ?n" using dn by simp
  have le: "unat ?le < ?m" "unat (m_sparse p ! unat ?le) = ?n - 1"
    using inv n1 unfolding le_nth pool_inv_def by blast+
  have le_e: "unat ?le \<noteq> unat e" using le(2) d by auto
  have lds: "length ?ds = ?n - 1" by simp
  have c3: "unat (?ds ! i) < length ?s \<and> unat (?s ! unat (?ds ! i)) = i"
    if "i < length ?ds" for i
  proof (cases "i = ?d")
    case True
    with that dn le le_e show ?thesis by (simp add: nth_butlast)
  next
    case False
    from that have i: "i < ?n - 1" by simp
    then have i': "i < ?n" by simp
    from inv i' have a: "unat (m_dense p ! i) < ?m" "unat (m_sparse p ! unat (m_dense p ! i)) = i"
      by (auto simp: pool_inv_def)
    have "unat (m_dense p ! i) \<noteq> unat e" using a(2) False by auto
    moreover have "unat (m_dense p ! i) \<noteq> unat ?le" using a(2) le(2) i by auto
    ultimately show ?thesis using a that False by (simp add: nth_butlast)
  qed
  have c4: "unat (?s ! x) < length ?ds \<and> unat (?ds ! unat (?s ! x)) = x"
    if "x < length ?s" "?s ! x \<noteq> EMPTY" for x
  proof -
    from that have xe: "x \<noteq> unat e" by (auto simp: nth_list_update split: if_splits)
    show ?thesis
    proof (cases "x = unat ?le")
      case True
      with xe le dn dn1 show ?thesis by (simp add: nth_butlast)
    next
      case False
      with that xe have x: "x < ?m" "m_sparse p ! x \<noteq> EMPTY" by simp_all
      with inv have b: "unat (m_sparse p ! x) < ?n" "unat (m_dense p ! unat (m_sparse p ! x)) = x"
        by (auto simp: pool_inv_def)
      have b1: "unat (m_sparse p ! x) \<noteq> ?n - 1"
      proof
        assume "unat (m_sparse p ! x) = ?n - 1"
        with b(2) le_nth False show False by simp
      qed
      have b2: "unat (m_sparse p ! x) \<noteq> ?d"
      proof
        assume "unat (m_sparse p ! x) = ?d"
        with b(2) Has_dense(2)[OF inv h] xe show False by simp
      qed
      from b b1 have "unat (m_sparse p ! x) < ?n - 1" by simp
      with b b2 xe False show ?thesis by (simp add: nth_butlast)
    qed
  qed
  have c1: "length ?s < 2 ^ 32" using inv by (simp add: pool_inv_def)
  have c2: "length (butlast ((m_data p)[?d := last (m_data p)])) = length ?ds"
    using inv by (simp add: pool_inv_def)
  show ?thesis unfolding pool_inv_def using c1 c2 c3 c4 by simp
qed


lemma Remove_props:
  assumes inv: "pool_inv p"
  shows "\<exists>p'. Remove e p = Inr p' \<and> pool_inv p' \<and> \<not> Has p' e \<and> (\<forall>i. i \<noteq> e \<longrightarrow> Has p' i = Has p i)"
proof (cases "Has p e")
  case False
  with inv show ?thesis by (simp add: Remove_absent)
next
  case True
  then have ue: "unat e < length (m_sparse p)" and se: "m_sparse p ! unat e \<noteq> EMPTY"
    by (simp_all add: Has_def)
  show ?thesis
  proof (cases "unat (m_sparse p ! unat e) = length (m_dense p) - 1")
    case last: True
    show ?thesis
      unfolding Remove_last[OF inv True last]
      using pool_inv_Remove_last[OF inv True last] ue
      by (auto simp: Has_def nth_list_update word_unat_eq_iff)
  next
    case swap: False
    have dn: "unat (m_sparse p ! unat e) < length (m_dense p)" by (rule Has_dense(1)[OF inv True])
    then have ne: "m_dense p \<noteq> []" by (cases "m_dense p") simp_all
    then have "last (m_dense p) = m_dense p ! (length (m_dense p) - 1)" by (simp add: last_conv_nth)
    moreover have "length (m_dense p) - 1 < length (m_dense p)" using dn by simp
    ultimately have hl: "Has p (last (m_dense p))" using dense_Has(1)[OF inv] by metis
    show ?thesis
      unfolding Remove_swap[OF inv True swap]
      using pool_inv_Remove_swap[OF inv True swap] ue se hl
      by (auto simp: Has_def nth_list_update word_unat_eq_iff)
  qed
qed

lemma Emplace_props:
  assumes inv: "pool_inv p" and ok: "Emplace e v p = Inr p'"
  shows "pool_inv p' \<and> Has p' e \<and> (\<forall>i. i \<noteq> e \<longrightarrow> Has p' i = Has p i) \<and>
         m_dense p' = m_dense p @ [e] \<and> \<not> Has p e \<and> e \<noteq> EMPTY"
proof -
  from Emplace_Inr_D[OF inv ok] have nh: "\<not> Has p e" and ne: "e \<noteq> EMPTY" by simp_all
  from ok have p': "p' = \<lparr>m_sparse = (grow (m_sparse p) e)[unat e := word_of_nat (length (m_dense p))],
                m_dense = m_dense p @ [e], m_data = m_data p @ [v]\<rparr>"
    unfolding Emplace_success[OF inv nh ne] by simp
  have pi: "pool_inv p'" unfolding p' by (rule pool_inv_Emplace[OF inv nh ne])
  have d: "m_dense p' = m_dense p @ [e]" by (simp add: p')
  have "m_dense p' ! length (m_dense p) = e" by (simp add: d)
  moreover have "length (m_dense p) < length (m_dense p')" by (simp add: d)
  ultimately have he: "Has p' e" using dense_Has(1)[OF pi] by metis
  have oth: "Has p' i = Has p i" if "i \<noteq> e" for i
  proof -
    from that have "unat i \<noteq> unat e" by (simp add: word_unat_eq_iff)
    then show ?thesis
      by (auto simp: p' Has_def length_grow nth_grow split: if_splits)
  qed
  from pi he oth d nh ne show ?thesis by blast
qed

lemma pool_step_inv:
  assumes "pool_inv p" "pool_step c p = Inr p'"
  shows "pool_inv p'"
proof (cases c)
  case (Call_Emplace i v)
  with assms show ?thesis using Emplace_props[OF assms(1)] by auto
next
  case (Call_Remove i)
  with assms Remove_props[OF assms(1), of i] show ?thesis by auto
qed

lemma pool_step_total:
  assumes "pool_inv p"
  shows "(\<exists>p'. pool_step c p = Inr p') \<longleftrightarrow>
         (case c of Call_Emplace i v \<Rightarrow> \<not> Has p i \<and> i \<noteq> EMPTY | Call_Remove i \<Rightarrow> True)"
proof (cases c)
  case (Call_Emplace i v)
  then show ?thesis
    using Emplace_Inr_D[OF assms] Emplace_success[OF assms] by auto
next
  case (Call_Remove i)
  with Remove_props[OF assms, of i] show ?thesis by auto
qed

lemma pool_run_inv:
  assumes "pool_inv p" "pool_run cs p = Inr p'"
  shows "pool_inv p'"
  using assms
proof (induction cs arbitrary: p)
  case Nil
  then show ?case by simp
next
  case (Cons c cs)
  from Cons.prems(2) obtain p1 where s: "pool_step c p = Inr p1" and r: "pool_run cs p1 = Inr p'"
    by (auto simp: bindF_eq_Inr)
  from pool_step_inv[OF Cons.prems(1) s] r show ?case by (rule Cons.IH)
qed

lemma EMPTY_numeral: "EMPTY = 4294967295"
  by (simp add: EMPTY_def)

lemma calls_fresh_run:
  assumes "pool_inv p" "calls_fresh cs p"
  shows "\<exists>p'. pool_run cs p = Inr p' \<and> pool_inv p'"
  using assms
proof (induction cs arbitrary: p)
  case Nil
  then show ?case by simp
next
  case (Cons c cs)
  from Cons.prems(2) have ok: "case c of Call_Emplace i v \<Rightarrow> \<not> Has p i \<and> i \<noteq> EMPTY | Call_Remove i \<Rightarrow> True"
    by (cases c) (simp_all add: EMPTY_numeral)
  with pool_step_total[OF Cons.prems(1), of c] obtain p1 where s: "pool_step c p = Inr p1" by blast
  from Cons.prems(2) s have f: "calls_fresh cs p1" by simp
  from Cons.IH[OF pool_step_inv[OF Cons.prems(1) s] f] s show ?case by simp
qed

text \<open>
  Claim C1 (pool density invariant), as the code has it. After any sequence of \<open>Emplace\<close>
  and \<open>Remove\<close> calls on a fresh pool in which every \<open>Emplace\<close> is on an index the pool
  does not hold, other than \<open>0xFFFFFFFF\<close>, no call faults, \<open>sparse[dense[i]] = i\<close> for
  every \<open>i\<close> below \<open>Size()\<close>, and \<open>dense\<close> and \<open>data\<close> both have length \<open>Size()\<close>.
\<close>

theorem pool_density_invariant:
  assumes "calls_fresh cs pool_init"
  shows "\<exists>p. pool_run cs pool_init = Inr p \<and>
           (\<forall>i < Size p. unat (m_dense p ! i) < length (m_sparse p) \<and>
              unat (m_sparse p ! unat (m_dense p ! i)) = i) \<and>
           length (m_dense p) = Size p \<and> length (m_data p) = Size p"
proof -
  from calls_fresh_run[OF pool_inv_init assms] obtain p where
    "pool_run cs pool_init = Inr p" "pool_inv p" by blast
  then show ?thesis by (auto simp: pool_inv_def Size_def)
qed

theorem pool_density_invariant_witness:
  "calls_fresh [Call_Emplace 3 (10::nat), Call_Emplace 1 20, Call_Emplace 5 30, Call_Remove 3] pool_init \<and>
   pool_run [Call_Emplace 3 (10::nat), Call_Emplace 1 20, Call_Emplace 5 30, Call_Remove 3] pool_init =
     Inr \<lparr>m_sparse = [EMPTY, 1, EMPTY, EMPTY, EMPTY, 0], m_dense = [5, 1], m_data = [30, 20]\<rparr> \<and>
   (\<exists>p. pool_run [Call_Emplace 3 (10::nat), Call_Emplace 1 20, Call_Emplace 5 30, Call_Remove 3] pool_init = Inr p \<and>
           (\<forall>i < Size p. unat (m_dense p ! i) < length (m_sparse p) \<and>
              unat (m_sparse p ! unat (m_dense p ! i)) = i) \<and>
           length (m_dense p) = Size p \<and> length (m_data p) = Size p)"
proof -
  have f: "calls_fresh [Call_Emplace 3 (10::nat), Call_Emplace 1 20, Call_Emplace 5 30, Call_Remove 3] pool_init"
    by code_simp
  have r: "pool_run [Call_Emplace 3 (10::nat), Call_Emplace 1 20, Call_Emplace 5 30, Call_Remove 3] pool_init =
     Inr \<lparr>m_sparse = [EMPTY, 1, EMPTY, EMPTY, EMPTY, 0], m_dense = [5, 1], m_data = [30, 20]\<rparr>"
    by code_simp
  from pool_density_invariant[OF f] f r show ?thesis by blast
qed

text \<open>
  The claim as stated fails at the index \<open>0xFFFFFFFF\<close>, which a pool never holds: there
  \<open>entityIdx + 1\<close> wraps to 0, \<open>resize\<close> empties the sparse array while the dense array
  keeps its entry, and the write to \<open>m_sparse[entityIdx]\<close> is out of range.
\<close>

theorem pool_density_invariant_counterexample:
  "Emplace 1 (10::nat) pool_init = Inr \<lparr>m_sparse = [EMPTY, 0], m_dense = [1], m_data = [10]\<rparr> \<and>
   \<not> Has \<lparr>m_sparse = [EMPTY, 0], m_dense = [1], m_data = [10::nat]\<rparr> 4294967295 \<and>
   resize [EMPTY, 0] (unat (4294967295 + 1 :: u32)) EMPTY = [] \<and>
   Emplace 4294967295 20 \<lparr>m_sparse = [EMPTY, 0], m_dense = [1], m_data = [10::nat]\<rparr> = Inl OutOfBounds \<and>
   pool_run [Call_Emplace 1 (10::nat), Call_Emplace 4294967295 20] pool_init = Inl OutOfBounds"
proof -
  let ?p = "\<lparr>m_sparse = [EMPTY, 0], m_dense = [1], m_data = [10::nat]\<rparr>"
  have a: "Emplace 1 (10::nat) pool_init = Inr ?p" by code_simp
  have b: "\<not> Has ?p 4294967295" by (simp add: Has_def)
  have c: "resize [EMPTY, 0] (unat (4294967295 + 1 :: u32)) EMPTY = []" by (simp add: resize_def)
  have d: "Emplace 4294967295 20 ?p = Inl OutOfBounds"
    by (simp add: Emplace_def Let_def resize_def Has_def put_def)
  have e: "pool_run [Call_Emplace 1 (10::nat), Call_Emplace 4294967295 20] pool_init = Inl OutOfBounds"
    by (simp add: a d)
  from a b c d e show ?thesis by blast
qed

section \<open>Entity identity: packing and unpacking\<close>

lemma INDEX_MASK_mask: "INDEX_MASK = mask 20"
  by (simp add: INDEX_MASK_def INDEX_BITS_def mask_eq_exp_minus_1)

lemma GEN_MASK_mask: "GEN_MASK = mask 12"
  by (simp add: GEN_MASK_def GEN_BITS_def mask_eq_exp_minus_1)

lemma EntityIndex_MakeEntity: "EntityIndex (MakeEntity idx g) = idx AND INDEX_MASK"
  unfolding EntityIndex_def MakeEntity_def INDEX_MASK_mask GEN_MASK_mask INDEX_BITS_def
  by (rule bit_word_eqI) (auto simp: bit_simps)

lemma EntityGeneration_MakeEntity: "EntityGeneration (MakeEntity idx g) = g AND GEN_MASK"
  unfolding EntityGeneration_def MakeEntity_def INDEX_MASK_mask GEN_MASK_mask INDEX_BITS_def
  by (rule bit_word_eqI) (auto simp: bit_simps)

lemma MakeEntity_parts: "MakeEntity (EntityIndex e) (EntityGeneration e) = e"
  unfolding EntityIndex_def EntityGeneration_def MakeEntity_def INDEX_MASK_mask GEN_MASK_mask INDEX_BITS_def
  by (rule bit_word_eqI) (auto simp: bit_simps)

lemma unat_and_mask: "unat ((w :: u32) AND mask n) = unat w mod 2 ^ n"
proof -
  have "unat (w AND mask n) = take_bit n (unat w)"
    by (simp flip: take_bit_eq_mask add: unsigned_take_bit_eq)
  then show ?thesis by (simp add: take_bit_eq_mod)
qed

lemma and_INDEX_MASK: "unat idx < 2 ^ 20 \<Longrightarrow> idx AND INDEX_MASK = idx"
  unfolding INDEX_MASK_mask by (simp add: word_unat_eq_iff unat_and_mask)

lemma and_GEN_MASK: "unat g < 2 ^ 12 \<Longrightarrow> g AND GEN_MASK = g"
  unfolding GEN_MASK_mask by (simp add: word_unat_eq_iff unat_and_mask)

lemma unat_EntityIndex: "unat (EntityIndex e) < 2 ^ 20"
  unfolding EntityIndex_def INDEX_MASK_mask by (simp add: unat_and_mask)

lemma unat_EntityGeneration: "unat (EntityGeneration e) < 2 ^ 12"
  unfolding EntityGeneration_def GEN_MASK_mask by (simp add: unat_and_mask)

lemma unat_index_mask: "unat (idx AND INDEX_MASK) = unat idx mod 2 ^ 20"
  unfolding INDEX_MASK_mask by (rule unat_and_mask)

lemma unat_gen_mask: "unat (g AND GEN_MASK) = unat g mod 2 ^ 12"
  unfolding GEN_MASK_mask by (rule unat_and_mask)

section \<open>Entity lifecycle\<close>

lemma IsAlive_iff:
  "IsAlive r eid \<longleftrightarrow> unat (EntityIndex eid) < length (m_generations r) \<and>
     EntityGeneration eid = m_generations r ! unat (EntityIndex eid)"
  by (simp add: IsAlive_def Let_def)

lemma DestroyEntity_dead: "\<not> IsAlive r eid \<Longrightarrow> DestroyEntity eid r = Inr r"
  by (simp add: DestroyEntity_def)

lemma DestroyEntity_alive:
  assumes "IsAlive r eid"
  shows "DestroyEntity eid r =
           bindF (Remove_from_pools (EntityIndex eid) (m_pools r)) (\<lambda>ps.
             Inr (r\<lparr>m_pools := ps,
                    m_generations := (m_generations r)[unat (EntityIndex eid) := EntityGeneration eid + 1],
                    m_freeList := m_freeList r @ [EntityIndex eid],
                    m_alive := remove1 eid (m_alive r)\<rparr>))"
  using assms by (simp add: DestroyEntity_def Let_def IsAlive_iff at_def put_def)

lemma DestroyEntity_not_alive_after:
  assumes "DestroyEntity eid r = Inr r'"
  shows "\<not> IsAlive r' eid"
proof (cases "IsAlive r eid")
  case False
  with assms show ?thesis by (simp add: DestroyEntity_dead)
next
  case True
  from assms obtain ps where
    r': "r' = r\<lparr>m_pools := ps,
               m_generations := (m_generations r)[unat (EntityIndex eid) := EntityGeneration eid + 1],
               m_freeList := m_freeList r @ [EntityIndex eid],
               m_alive := remove1 eid (m_alive r)\<rparr>"
    unfolding DestroyEntity_alive[OF True] by (auto simp: bindF_eq_Inr)
  from True show ?thesis by (simp add: r' IsAlive_iff)
qed

lemma Remove_from_pools_total:
  assumes "\<forall>(k, p) \<in> set ps. pool_inv p"
  shows "\<exists>ps'. Remove_from_pools idx ps = Inr ps'"
  using assms
proof (induction ps)
  case Nil
  then show ?case by simp
next
  case (Cons kp ps)
  obtain k p where kp: "kp = (k, p)" by (cases kp)
  from Cons.prems kp have "pool_inv p" by simp
  from Remove_props[OF this, of idx] obtain p' where "Remove idx p = Inr p'" by blast
  moreover from Cons obtain ps' where "Remove_from_pools idx ps = Inr ps'" by auto
  ultimately show ?case by (simp add: kp)
qed

lemma DestroyEntity_total:
  assumes "reg_inv r"
  shows "\<exists>r'. DestroyEntity eid r = Inr r'"
proof (cases "IsAlive r eid")
  case False
  then show ?thesis by (simp add: DestroyEntity_dead)
next
  case True
  have "\<forall>(k, p) \<in> set (m_pools r). pool_inv p" using assms by (auto simp: reg_inv_def)
  from Remove_from_pools_total[OF this] obtain ps where
    "Remove_from_pools (EntityIndex eid) (m_pools r) = Inr ps" by blast
  then show ?thesis by (simp add: DestroyEntity_alive[OF True])
qed

text \<open>
  Claim C7 (idempotent destroy). For every registry and handle \<open>h\<close>: when
  \<open>DestroyEntity h\<close> returns, a second \<open>DestroyEntity h\<close> returns the same registry
  unchanged (generation table, free list, live list and every pool); and on a well-formed
  registry the first call does return.
\<close>

theorem DestroyEntity_idempotent:
  "(DestroyEntity h r = Inr r1 \<longrightarrow> DestroyEntity h r1 = Inr r1) \<and>
   (reg_inv r \<longrightarrow> (\<exists>r1. DestroyEntity h r = Inr r1))"
  using DestroyEntity_not_alive_after[of h r r1] DestroyEntity_dead[of r1 h] DestroyEntity_total[of r h]
  by blast

theorem DestroyEntity_idempotent_witness:
  "let r = \<lparr>m_alive = [0], m_generations = [0], m_freeList = [],
              m_pools = [(0::nat, \<lparr>m_sparse = [0], m_dense = [0], m_data = [7::nat]\<rparr>)]\<rparr>;
       r1 = \<lparr>m_alive = [], m_generations = [1], m_freeList = [0],
              m_pools = [(0::nat, \<lparr>m_sparse = [EMPTY], m_dense = [], m_data = []\<rparr>)]\<rparr>
   in DestroyEntity 0 r = Inr r1 \<and> DestroyEntity 0 r1 = Inr r1 \<and> reg_inv r"
proof -
  let ?r = "\<lparr>m_alive = [0], m_generations = [0], m_freeList = [],
              m_pools = [(0::nat, \<lparr>m_sparse = [0], m_dense = [0], m_data = [7::nat]\<rparr>)]\<rparr>"
  let ?r1 = "\<lparr>m_alive = [], m_generations = [1], m_freeList = [0],
              m_pools = [(0::nat, \<lparr>m_sparse = [EMPTY], m_dense = [], m_data = []::nat list\<rparr>)]\<rparr>"
  have a: "DestroyEntity 0 ?r = Inr ?r1" by code_simp
  have b: "reg_inv ?r" by (simp add: reg_inv_def pool_inv_def EMPTY_def)
  from DestroyEntity_idempotent[of 0 ?r ?r1] a b show ?thesis
    unfolding Let_def by blast
qed

section \<open>Queries\<close>

lemma FindSmallestPool_loop_missing:
  "None \<in> set ps \<Longrightarrow> FindSmallestPool_loop ps result minSize = None"
  by (induction ps arbitrary: result minSize) (auto split: option.splits)

lemma View_no_pool:
  assumes "k \<in> set ks" and "PoolPtr k r = None"
  shows "FindSmallestPool ks r = None \<and> View ks fn r = Inr ([], r)"
proof -
  have "None \<in> set (map (\<lambda>k. PoolPtr k r) ks)" using assms by force
  then have "FindSmallestPool ks r = None"
    unfolding FindSmallestPool_def by (rule FindSmallestPool_loop_missing)
  then show ?thesis by (simp add: View_def)
qed

text \<open>
  Claim C8 (missing pool). When one of the listed component types has no pool,
  \<open>FindSmallestPool\<close> returns the null pointer and \<open>View\<close> returns at once: the visitor is
  never invoked, the registry is unchanged, and no index list is iterated.
\<close>

theorem View_missing_pool:
  assumes "k \<in> set ks" and "PoolPtr k r = None"
  shows "FindSmallestPool ks r = None \<and> View ks fn r = Inr ([], r)"
  using assms by (rule View_no_pool)

theorem View_missing_pool_witness:
  "let r = \<lparr>m_alive = [0], m_generations = [0], m_freeList = [],
              m_pools = [(0::nat, \<lparr>m_sparse = [0], m_dense = [0], m_data = [7::nat]\<rparr>)]\<rparr>
   in (1::nat) \<in> set [0, 1] \<and> PoolPtr 1 r = None \<and>
      FindSmallestPool [0, 1] r = None \<and> View [0, 1] (\<lambda>eid cs. Inr) r = Inr ([], r)"
proof -
  let ?r = "\<lparr>m_alive = [0], m_generations = [0], m_freeList = [],
              m_pools = [(0::nat, \<lparr>m_sparse = [0], m_dense = [0], m_data = [7::nat]\<rparr>)]\<rparr>"
  have a: "(1::nat) \<in> set [0, 1]" by simp
  have b: "PoolPtr 1 ?r = None" by (simp add: PoolPtr_def)
  from View_missing_pool[OF a b, of "\<lambda>eid cs. Inr"] a b show ?thesis
    unfolding Let_def by blast
qed

text \<open>
  Claim C10 (\<open>HasComponent\<close> ignores aliveness). Create an entity (handle 0), destroy it,
  create again (the slot is reused with generation 1, handle \<open>0x100000\<close>) and give the new
  entity a component. The stale handle 0 is not alive, yet \<open>HasComponent\<close> returns true for
  it: it reports on the slot's current occupant.
\<close>

theorem HasComponent_stale_handle:
  "let r1 = \<lparr>m_alive = [0], m_generations = [0], m_freeList = [], m_pools = []\<rparr>;
       r2 = \<lparr>m_alive = [], m_generations = [1], m_freeList = [0], m_pools = []\<rparr>;
       r3 = \<lparr>m_alive = [1048576], m_generations = [1], m_freeList = [], m_pools = []\<rparr>;
       r4 = \<lparr>m_alive = [1048576], m_generations = [1], m_freeList = [],
              m_pools = [(0::nat, \<lparr>m_sparse = [0], m_dense = [0], m_data = [7::nat]\<rparr>)]\<rparr>
   in CreateEntity Registry_init = Inr (0, r1) \<and>
      DestroyEntity 0 r1 = Inr r2 \<and>
      CreateEntity r2 = Inr (1048576, r3) \<and>
      AddComponent 0 1048576 7 r3 = Inr r4 \<and>
      EntityIndex 1048576 = EntityIndex 0 \<and>
      IsAlive r4 1048576 \<and> \<not> IsAlive r4 0 \<and>
      HasComponent 0 1048576 r4 \<and> HasComponent 0 0 r4"
  by code_simp

section \<open>Creating and recycling slots\<close>

lemma CreateEntity_eq:
  "CreateEntity r =
     (if m_freeList r \<noteq> [] then
        bindF (at (m_generations r) (hd (m_freeList r))) (\<lambda>gen.
          Inr (MakeEntity (hd (m_freeList r)) gen,
               r\<lparr>m_freeList := tl (m_freeList r),
                  m_alive := m_alive r @ [MakeEntity (hd (m_freeList r)) gen]\<rparr>))
      else
        bindF (at (m_generations r @ [0]) (word_of_nat (length (m_generations r)))) (\<lambda>gen.
          Inr (MakeEntity (word_of_nat (length (m_generations r))) gen,
               r\<lparr>m_generations := m_generations r @ [0],
                  m_alive := m_alive r @ [MakeEntity (word_of_nat (length (m_generations r))) gen]\<rparr>)))"
  by (simp add: CreateEntity_def Let_def)

lemma unat_word_of_nat_le: "unat (word_of_nat n :: u32) \<le> n"
  by (simp add: unat_of_nat)

lemma CreateEntity_append:
  assumes "m_freeList r = []"
  shows "CreateEntity r =
           Inr (MakeEntity (word_of_nat (length (m_generations r)))
                  ((m_generations r @ [0]) ! unat (word_of_nat (length (m_generations r)) :: u32)),
                r\<lparr>m_generations := m_generations r @ [0],
                   m_alive := m_alive r @
                     [MakeEntity (word_of_nat (length (m_generations r)))
                        ((m_generations r @ [0]) ! unat (word_of_nat (length (m_generations r)) :: u32))]\<rparr>)"
proof -
  have "unat (word_of_nat (length (m_generations r)) :: u32) < length (m_generations r @ [0])"
    using unat_word_of_nat_le[of "length (m_generations r)"] by simp
  with assms show ?thesis by (simp add: CreateEntity_eq at_def)
qed

lemma CreateEntity_reuse:
  assumes "m_freeList r \<noteq> []" "unat (hd (m_freeList r)) < length (m_generations r)"
  shows "CreateEntity r =
           Inr (MakeEntity (hd (m_freeList r)) (m_generations r ! unat (hd (m_freeList r))),
                r\<lparr>m_freeList := tl (m_freeList r),
                   m_alive := m_alive r @
                     [MakeEntity (hd (m_freeList r)) (m_generations r ! unat (hd (m_freeList r)))]\<rparr>)"
  using assms by (simp add: CreateEntity_eq at_def)

lemma one_slot_alive:
  assumes "unat g < 2 ^ 12"
  shows "IsAlive (one_slot g) (MakeEntity 0 g)"
  using assms
  by (simp add: IsAlive_iff one_slot_def EntityIndex_MakeEntity EntityGeneration_MakeEntity and_GEN_MASK)

lemma recycle_step:
  assumes "unat g < 2 ^ 12"
  shows "bindF (DestroyEntity (MakeEntity 0 g) (one_slot g)) CreateEntity =
           Inr (MakeEntity 0 (g + 1), one_slot (g + 1) :: ('k, 'a) Registry)"
proof -
  have idx: "EntityIndex (MakeEntity 0 g) = 0" by (simp add: EntityIndex_MakeEntity)
  have gen: "EntityGeneration (MakeEntity 0 g) = g"
    using assms by (simp add: EntityGeneration_MakeEntity and_GEN_MASK)
  have "DestroyEntity (MakeEntity 0 g) (one_slot g :: ('k, 'a) Registry) =
          Inr \<lparr>m_alive = [], m_generations = [g + 1], m_freeList = [0], m_pools = []\<rparr>"
    unfolding DestroyEntity_alive[OF one_slot_alive[OF assms]]
    by (simp add: idx gen one_slot_def)
  moreover have "CreateEntity \<lparr>m_alive = [], m_generations = [g + 1], m_freeList = [0], m_pools = []\<rparr> =
          Inr (MakeEntity 0 (g + 1), one_slot (g + 1) :: ('k, 'a) Registry)"
    by (simp add: CreateEntity_reuse one_slot_def)
  ultimately show ?thesis by simp
qed

lemma recycle_one_slot:
  assumes "unat g + n \<le> 4096"
  shows "recycle n (MakeEntity 0 g, one_slot g) =
           Inr (MakeEntity 0 (g + word_of_nat n), one_slot (g + word_of_nat n) :: ('k, 'a) Registry)"
  using assms
proof (induction n arbitrary: g)
  case 0
  then show ?case by simp
next
  case (Suc n)
  then have g: "unat g < 2 ^ 12" by simp
  then have g1: "unat (g + 1) = unat g + 1" by (simp add: unat_word_ariths)
  have "recycle (Suc n) (MakeEntity 0 g, one_slot g :: ('k, 'a) Registry) =
          bindF (bindF (DestroyEntity (MakeEntity 0 g) (one_slot g)) CreateEntity) (recycle n)"
    by (cases "DestroyEntity (MakeEntity 0 g) (one_slot g :: ('k, 'a) Registry)") simp_all
  also have "\<dots> = recycle n (MakeEntity 0 (g + 1), one_slot (g + 1))"
    by (simp add: recycle_step[OF g])
  also have "\<dots> = Inr (MakeEntity 0 (g + 1 + word_of_nat n), one_slot (g + 1 + word_of_nat n))"
    using Suc.prems g1 by (intro Suc.IH) simp
  finally show ?case by (simp add: ac_simps)
qed

lemma CreateEntity_init: "CreateEntity (Registry_init :: ('k, 'a) Registry) = Inr (0, one_slot 0)"
  by (simp add: CreateEntity_append Registry_init_def one_slot_def MakeEntity_def)

text \<open>
  Claim C5 (a freshly created entity is alive) fails on the code: create an entity on the
  empty registry, then 4096 times destroy the last entity and create again. The stored
  generation of slot 0 is then 4096 (\<open>++m_generations[idx]\<close> is never masked), the handle
  returned by \<open>CreateEntity\<close> carries generation \<open>4096 AND 0xFFF = 0\<close>, and \<open>IsAlive\<close>
  compares 0 with 4096.
\<close>

theorem CreateEntity_not_alive_after_4096_recycles:
  "bindF (CreateEntity (Registry_init :: (nat, nat) Registry)) (recycle 4096) =
     Inr (0, \<lparr>m_alive = [0], m_generations = [4096], m_freeList = [], m_pools = []\<rparr>) \<and>
   \<not> IsAlive \<lparr>m_alive = [0], m_generations = [4096], m_freeList = [],
              m_pools = [] :: (nat \<times> nat ComponentPool) list\<rparr> 0"
proof -
  have "recycle 4096 (MakeEntity 0 0, one_slot 0 :: (nat, nat) Registry) =
          Inr (MakeEntity 0 (0 + word_of_nat 4096), one_slot (0 + word_of_nat 4096))"
    by (rule recycle_one_slot) simp
  moreover have "MakeEntity 0 4096 = 0" "MakeEntity 0 0 = 0"
    by (simp_all add: MakeEntity_def GEN_MASK_def GEN_BITS_def INDEX_BITS_def)
  ultimately have "recycle 4096 (0, one_slot 0 :: (nat, nat) Registry) =
     Inr (0, \<lparr>m_alive = [0], m_generations = [4096], m_freeList = [], m_pools = []\<rparr>)"
    by (simp add: one_slot_def)
  moreover have "\<not> IsAlive \<lparr>m_alive = [0], m_generations = [4096], m_freeList = [],
              m_pools = [] :: (nat \<times> nat ComponentPool) list\<rparr> 0"
    by (simp add: IsAlive_iff EntityIndex_def EntityGeneration_def)
  ultimately show ?thesis by (simp add: CreateEntity_init)
qed

section \<open>Generations only grow\<close>

lemma update_missing:
  "map_of ps k = None \<Longrightarrow> AList.update k v (ps @ [(k, w)]) = ps @ [(k, v)]"
  by (induction ps) (auto split: if_splits)

lemma update_missing': "map_of ps k = None \<Longrightarrow> AList.update k v ps = ps @ [(k, v)]"
  by (induction ps) (auto split: if_splits)

lemma AddComponent_Inr:
  assumes "AddComponent k eid v r = Inr r'"
  shows "IsAlive r eid \<and>
         (\<exists>p'. Emplace (EntityIndex eid) v (case PoolPtr k r of None \<Rightarrow> pool_init | Some p \<Rightarrow> p) = Inr p' \<and>
               r' = r\<lparr>m_pools := AList.update k p' (m_pools r)\<rparr>)"
proof -
  from assms have alive: "IsAlive r eid" by (auto simp: AddComponent_def split: if_splits)
  show ?thesis
  proof (cases "map_of (m_pools r) k")
    case None
    with assms alive show ?thesis
      by (auto simp: AddComponent_def Pool_def PoolPtr_def bindF_eq_Inr update_missing update_missing')
  next
    case (Some p)
    with assms alive show ?thesis
      by (auto simp: AddComponent_def Pool_def PoolPtr_def bindF_eq_Inr)
  qed
qed

lemma RemoveComponent_Inr:
  assumes "RemoveComponent k eid r = Inr r'"
  shows "(PoolPtr k r = None \<and> r' = r) \<or>
         (\<exists>p p'. PoolPtr k r = Some p \<and> Remove (EntityIndex eid) p = Inr p' \<and>
                 r' = r\<lparr>m_pools := AList.update k p' (m_pools r)\<rparr>)"
  using assms by (auto simp: RemoveComponent_def bindF_eq_Inr split: option.splits)

lemma GetOrAdd_Inr:
  assumes "GetOrAdd k eid v r = Inr (c, r')"
  shows "r' = r \<or> AddComponent k eid v r = Inr r'"
  using assms by (auto simp: GetOrAdd_def bindF_eq_Inr split: if_splits)

lemma CreateEntity_Inr:
  assumes "CreateEntity r = Inr (eid, r')"
  shows "unat (next_slot r) < length (m_generations r') \<and>
         eid = MakeEntity (next_slot r) (m_generations r' ! unat (next_slot r)) \<and>
         m_alive r' = m_alive r @ [eid] \<and> m_pools r' = m_pools r \<and>
         (if m_freeList r \<noteq> []
          then m_generations r' = m_generations r \<and> m_freeList r' = tl (m_freeList r)
          else m_generations r' = m_generations r @ [0] \<and> m_freeList r' = [])"
  using assms
  by (auto simp: CreateEntity_eq next_slot_def bindF_eq_Inr at_def split: if_splits)

lemma gens_le_refl: "gens_le r r"
  by (simp add: gens_le_def)

lemma gens_le_trans: "gens_le r1 r2 \<Longrightarrow> gens_le r2 r3 \<Longrightarrow> gens_le r1 r3"
  unfolding gens_le_def by (meson le_trans less_le_trans)

lemma gens_le_same: "m_generations r' = m_generations r \<Longrightarrow> gens_le r r'"
  by (simp add: gens_le_def)

lemma CreateEntity_gens_le:
  assumes "CreateEntity r = Inr (eid, r')"
  shows "gens_le r r'"
  using CreateEntity_Inr[OF assms] by (auto simp: gens_le_def nth_append split: if_splits)

lemma DestroyEntity_gens:
  assumes "DestroyEntity eid r = Inr r'"
  shows "m_generations r' =
           (if IsAlive r eid
            then (m_generations r)[unat (EntityIndex eid) := EntityGeneration eid + 1]
            else m_generations r)"
proof (cases "IsAlive r eid")
  case True
  with assms show ?thesis by (auto simp: DestroyEntity_alive bindF_eq_Inr)
next
  case False
  with assms show ?thesis by (simp add: DestroyEntity_dead)
qed

lemma unat_gen_succ: "unat (EntityGeneration eid + 1) = unat (EntityGeneration eid) + 1"
  using unat_EntityGeneration[of eid] by (simp add: unat_word_ariths)

lemma DestroyEntity_gens_le:
  assumes "DestroyEntity eid r = Inr r'"
  shows "gens_le r r'"
proof (cases "IsAlive r eid")
  case True
  then have g: "m_generations r ! unat (EntityIndex eid) = EntityGeneration eid"
    by (simp add: IsAlive_iff)
  have "unat (m_generations r ! j) \<le>
          unat ((m_generations r)[unat (EntityIndex eid) := EntityGeneration eid + 1] ! j)"
    if "j < length (m_generations r)" for j
  proof (cases "j = unat (EntityIndex eid)")
    case True
    with that g show ?thesis by (simp add: unat_gen_succ)
  next
    case False
    with that show ?thesis by simp
  qed
  then show ?thesis
    unfolding gens_le_def DestroyEntity_gens[OF assms] using True by simp
next
  case False
  with DestroyEntity_gens[OF assms] show ?thesis by (simp add: gens_le_same)
qed

lemma reg_step_gens_le:
  assumes "reg_step c r = Inr r'" "c \<noteq> Call_Clear"
  shows "gens_le r r'"
proof (cases c)
  case Call_CreateEntity
  with assms show ?thesis by (auto simp: bindF_eq_Inr dest: CreateEntity_gens_le)
next
  case (Call_DestroyEntity eid)
  with assms show ?thesis by (auto dest: DestroyEntity_gens_le)
next
  case (Call_AddComponent k eid v)
  with assms show ?thesis by (auto dest!: AddComponent_Inr intro: gens_le_same)
next
  case (Call_RemoveComponent k eid)
  with assms show ?thesis by (auto dest!: RemoveComponent_Inr intro: gens_le_same gens_le_refl)
next
  case (Call_GetOrAdd k eid v)
  with assms show ?thesis
    by (auto simp: bindF_eq_Inr dest!: GetOrAdd_Inr AddComponent_Inr intro: gens_le_same gens_le_refl)
next
  case Call_Clear
  with assms show ?thesis by simp
qed

lemma reg_run_gens_le:
  assumes "reg_run cs r = Inr r'" "Call_Clear \<notin> set cs"
  shows "gens_le r r'"
  using assms
proof (induction cs arbitrary: r)
  case Nil
  then show ?case by (simp add: gens_le_refl)
next
  case (Cons c cs)
  from Cons.prems obtain r1 where s: "reg_step c r = Inr r1" and t: "reg_run cs r1 = Inr r'"
    by (auto simp: bindF_eq_Inr)
  from Cons.prems have "c \<noteq> Call_Clear" "Call_Clear \<notin> set cs" by auto
  with reg_step_gens_le[OF s] Cons.IH[OF t] show ?case by (blast intro: gens_le_trans)
qed


text \<open>
  Claim C2 (generational safety), as the code has it. Let \<open>e\<close> be a handle returned by
  \<open>CreateEntity\<close>. After \<open>DestroyEntity e\<close>, \<open>IsAlive e\<close> is false. Let a later
  \<open>CreateEntity\<close> (any calls but \<open>Clear\<close> in between) return a handle \<open>e2\<close> with the slot
  index of \<open>e\<close>. If the registry then holds at most \<open>2^20\<close> slots and the stored generation
  of the slot is below 4096 (the slot was destroyed fewer than 4096 times), then
  \<open>e2 \<noteq> e\<close>, \<open>IsAlive e2\<close> is true and \<open>IsAlive e\<close> is still false.
\<close>

theorem generational_safety:
  assumes c1: "CreateEntity r0 = Inr (e, r1)"
    and run1: "reg_run cs1 r1 = Inr r2" and nc1: "Call_Clear \<notin> set cs1"
    and d: "DestroyEntity e r2 = Inr r3"
    and run2: "reg_run cs2 r3 = Inr r4" and nc2: "Call_Clear \<notin> set cs2"
    and c2: "CreateEntity r4 = Inr (e2, r5)"
    and slot: "EntityIndex e2 = EntityIndex e"
    and small: "length (m_generations r5) \<le> 2 ^ 20"
    and gen: "unat (m_generations r4 ! unat (EntityIndex e)) < 2 ^ 12"
  shows "\<not> IsAlive r3 e \<and> e2 \<noteq> e \<and> IsAlive r5 e2 \<and> \<not> IsAlive r5 e"
proof -
  let ?i = "unat (EntityIndex e)"
  let ?ge = "EntityGeneration e"
  note A = CreateEntity_Inr[OF c1]
  note B = CreateEntity_Inr[OF c2]
  have le12: "gens_le r1 r2" by (rule reg_run_gens_le[OF run1 nc1])
  have le23: "gens_le r2 r3" by (rule DestroyEntity_gens_le[OF d])
  have le34: "gens_le r3 r4" by (rule reg_run_gens_le[OF run2 nc2])
  have le45: "gens_le r4 r5" by (rule CreateEntity_gens_le[OF c2])
  have len15: "length (m_generations r1) \<le> length (m_generations r5)"
    using le12 le23 le34 le45 unfolding gens_le_def by linarith
  have s0: "unat (next_slot r0) < 2 ^ 20" using A len15 small by linarith
  have i_eq: "EntityIndex e = next_slot r0"
    using A s0 by (simp add: EntityIndex_MakeEntity and_INDEX_MASK)
  have i1: "?i < length (m_generations r1)" using A i_eq by simp
  have i2: "?i < length (m_generations r2)" using i1 le12 unfolding gens_le_def by linarith
  have i3: "?i < length (m_generations r3)" using i2 le23 unfolding gens_le_def by linarith
  have i4: "?i < length (m_generations r4)" using i3 le34 unfolding gens_le_def by linarith
  have "?ge = m_generations r1 ! ?i AND GEN_MASK"
    using A i_eq by (simp add: EntityGeneration_MakeEntity)
  then have "unat ?ge \<le> unat (m_generations r1 ! ?i)" by (simp add: unat_gen_mask)
  moreover have "unat (m_generations r1 ! ?i) \<le> unat (m_generations r2 ! ?i)"
    using le12 i1 unfolding gens_le_def by blast
  ultimately have g2: "unat ?ge \<le> unat (m_generations r2 ! ?i)" by linarith
  have g3: "unat ?ge < unat (m_generations r3 ! ?i)"
  proof (cases "IsAlive r2 e")
    case True
    then show ?thesis unfolding DestroyEntity_gens[OF d] using i2 by (simp add: unat_gen_succ)
  next
    case False
    with i2 have "?ge \<noteq> m_generations r2 ! ?i" by (simp add: IsAlive_iff)
    then have "unat ?ge \<noteq> unat (m_generations r2 ! ?i)" by (simp add: word_unat_eq_iff)
    with g2 False show ?thesis unfolding DestroyEntity_gens[OF d] by simp
  qed
  have "unat (m_generations r3 ! ?i) \<le> unat (m_generations r4 ! ?i)"
    using le34 i3 unfolding gens_le_def by blast
  with g3 have g4: "unat ?ge < unat (m_generations r4 ! ?i)" by linarith
  have s4: "unat (next_slot r4) < 2 ^ 20" using B small by linarith
  have j_eq: "EntityIndex e2 = next_slot r4"
    using B s4 by (simp add: EntityIndex_MakeEntity and_INDEX_MASK)
  with slot have ns: "next_slot r4 = EntityIndex e" by simp
  have g5: "m_generations r5 ! ?i = m_generations r4 ! ?i"
    using B i4 by (auto simp: nth_append split: if_splits)
  have i5: "?i < length (m_generations r5)" using B ns by simp
  have "EntityGeneration e2 = m_generations r5 ! ?i AND GEN_MASK"
    using B ns by (simp add: EntityGeneration_MakeEntity)
  with gen have ge2: "EntityGeneration e2 = m_generations r4 ! ?i"
    by (simp add: g5 and_GEN_MASK)
  with g4 have ne: "EntityGeneration e2 \<noteq> ?ge" by auto
  have "\<not> IsAlive r3 e" by (rule DestroyEntity_not_alive_after[OF d])
  moreover from ne have "e2 \<noteq> e" by auto
  moreover have "IsAlive r5 e2" using i5 ge2 g5 slot by (simp add: IsAlive_iff)
  moreover have "\<not> IsAlive r5 e" using ne ge2 g5 by (simp add: IsAlive_iff)
  ultimately show ?thesis by blast
qed

theorem generational_safety_witness:
  "let r1 = \<lparr>m_alive = [0], m_generations = [0], m_freeList = [], m_pools = []\<rparr>;
       r2 = \<lparr>m_alive = [0], m_generations = [0], m_freeList = [],
              m_pools = [(0::nat, \<lparr>m_sparse = [0], m_dense = [0], m_data = [7::nat]\<rparr>)]\<rparr>;
       r3 = \<lparr>m_alive = [], m_generations = [1], m_freeList = [0],
              m_pools = [(0::nat, \<lparr>m_sparse = [EMPTY], m_dense = [], m_data = []\<rparr>)]\<rparr>;
       r5 = \<lparr>m_alive = [1048576], m_generations = [1], m_freeList = [],
              m_pools = [(0::nat, \<lparr>m_sparse = [EMPTY], m_dense = [], m_data = []\<rparr>)]\<rparr>
   in CreateEntity Registry_init = Inr (0, r1) \<and>
      reg_run [Call_AddComponent 0 0 7] r1 = Inr r2 \<and>
      Call_Clear \<notin> set [Call_AddComponent (0::nat) 0 (7::nat)] \<and>
      DestroyEntity 0 r2 = Inr r3 \<and>
      reg_run [] r3 = Inr r3 \<and>
      Call_Clear \<notin> set ([] :: (nat, nat) reg_call list) \<and>
      CreateEntity r3 = Inr (1048576, r5) \<and>
      EntityIndex 1048576 = EntityIndex 0 \<and>
      length (m_generations r5) \<le> 2 ^ 20 \<and>
      unat (m_generations r3 ! unat (EntityIndex 0)) < 2 ^ 12 \<and>
      \<not> IsAlive r3 0 \<and> (1048576 :: EntityId) \<noteq> 0 \<and> IsAlive r5 1048576 \<and> \<not> IsAlive r5 0"
proof -
  let ?r1 = "\<lparr>m_alive = [0], m_generations = [0], m_freeList = [], m_pools = []\<rparr> :: (nat, nat) Registry"
  let ?r2 = "\<lparr>m_alive = [0], m_generations = [0], m_freeList = [],
              m_pools = [(0::nat, \<lparr>m_sparse = [0], m_dense = [0], m_data = [7::nat]\<rparr>)]\<rparr>"
  let ?r3 = "\<lparr>m_alive = [], m_generations = [1], m_freeList = [0],
              m_pools = [(0::nat, \<lparr>m_sparse = [EMPTY], m_dense = [], m_data = [] :: nat list\<rparr>)]\<rparr>"
  let ?r5 = "\<lparr>m_alive = [1048576], m_generations = [1], m_freeList = [],
              m_pools = [(0::nat, \<lparr>m_sparse = [EMPTY], m_dense = [], m_data = [] :: nat list\<rparr>)]\<rparr>"
  have h1: "CreateEntity Registry_init = Inr (0, ?r1)" by code_simp
  have h2: "reg_run [Call_AddComponent 0 0 7] ?r1 = Inr ?r2" by code_simp
  have h3: "Call_Clear \<notin> set [Call_AddComponent (0::nat) 0 (7::nat)]" by simp
  have h4: "DestroyEntity 0 ?r2 = Inr ?r3" by code_simp
  have h5: "reg_run [] ?r3 = Inr ?r3" by simp
  have h6: "Call_Clear \<notin> set ([] :: (nat, nat) reg_call list)" by simp
  have h7: "CreateEntity ?r3 = Inr (1048576, ?r5)" by code_simp
  have h8: "EntityIndex 1048576 = EntityIndex 0" by code_simp
  have h9: "length (m_generations ?r5) \<le> 2 ^ 20" by simp
  have h10: "unat (m_generations ?r3 ! unat (EntityIndex 0)) < 2 ^ 12"
    by (simp add: EntityIndex_def)
  from generational_safety[OF h1 h2 h3 h4 h5 h6 h7 h8 h9 h10] h1 h2 h3 h4 h5 h6 h7 h8 h9 h10
  show ?thesis unfolding Let_def by blast
qed


text \<open>
  The claim as stated fails at the 4096th recycle of a slot. The first entity has handle 0.
  It is destroyed; the slot is recycled until its stored generation is 4095, destroyed
  once more (generation 4096) and created again. The handle returned is 0 again, equal to
  the first handle, and it is not alive.
\<close>

theorem generational_safety_counterexample:
  "CreateEntity (Registry_init :: (nat, nat) Registry) = Inr (0, one_slot 0) \<and>
   DestroyEntity 0 (one_slot 0 :: (nat, nat) Registry) = Inr (freed_slot 1) \<and>
   bindF (CreateEntity (freed_slot 1 :: (nat, nat) Registry)) (recycle 4094) =
     Inr (4293918720, one_slot 4095) \<and>
   DestroyEntity 4293918720 (one_slot 4095 :: (nat, nat) Registry) = Inr (freed_slot 4096) \<and>
   CreateEntity (freed_slot 4096 :: (nat, nat) Registry) = Inr (0, one_slot 4096) \<and>
   \<not> IsAlive (one_slot 4096 :: (nat, nat) Registry) 0"
proof -
  have m: "MakeEntity 0 0 = 0" "MakeEntity 0 1 = 1048576" "MakeEntity 0 4095 = 4293918720"
    "MakeEntity 0 4096 = 0"
    by (simp_all add: MakeEntity_def GEN_MASK_def GEN_BITS_def INDEX_BITS_def)
  have h1: "CreateEntity (Registry_init :: (nat, nat) Registry) = Inr (0, one_slot 0)"
    by (rule CreateEntity_init)
  have h2: "DestroyEntity 0 (one_slot 0 :: (nat, nat) Registry) = Inr (freed_slot 1)"
    by code_simp
  have "CreateEntity (freed_slot 1 :: (nat, nat) Registry) = Inr (MakeEntity 0 1, one_slot 1)"
    by (simp add: CreateEntity_reuse one_slot_def freed_slot_def)
  moreover have "recycle 4094 (MakeEntity 0 1, one_slot 1 :: (nat, nat) Registry) =
          Inr (MakeEntity 0 (1 + word_of_nat 4094), one_slot (1 + word_of_nat 4094))"
    by (rule recycle_one_slot) simp
  ultimately have h3: "bindF (CreateEntity (freed_slot 1 :: (nat, nat) Registry)) (recycle 4094) =
     Inr (4293918720, one_slot 4095)"
    by (simp add: m)
  have h4: "DestroyEntity 4293918720 (one_slot 4095 :: (nat, nat) Registry) = Inr (freed_slot 4096)"
    by code_simp
  have h5: "CreateEntity (freed_slot 4096 :: (nat, nat) Registry) = Inr (0, one_slot 4096)"
    by (simp add: CreateEntity_reuse one_slot_def freed_slot_def m)
  have h6: "\<not> IsAlive (one_slot 4096 :: (nat, nat) Registry) 0"
    by (simp add: IsAlive_iff one_slot_def EntityIndex_def EntityGeneration_def)
  from h1 h2 h3 h4 h5 h6 show ?thesis by blast
qed

text \<open>\<open>Clear\<close> resets the generation table, so a handle from before it can be alive again.\<close>

lemma Clear_revives_handle:
  "let r1 = \<lparr>m_alive = [0], m_generations = [0], m_freeList = [], m_pools = []\<rparr>;
       r2 = \<lparr>m_alive = [], m_generations = [1], m_freeList = [0], m_pools = []\<rparr>
   in CreateEntity (Registry_init :: (nat, nat) Registry) = Inr (0, r1) \<and>
      DestroyEntity 0 r1 = Inr r2 \<and>
      Clear r2 = Registry_init \<and>
      CreateEntity (Clear r2) = Inr (0, r1) \<and> IsAlive r1 0"
  by code_simp

subsection \<open>The index width\<close>

text \<open>
  Claim C9 (index width), as the code has it. On a registry whose free list holds existing
  slots, \<open>CreateEntity\<close> always returns a handle; no fault is raised at any slot count.
  The index field of the handle is the slot index modulo \<open>2^20\<close>: the slot index itself
  while that is below \<open>2^20\<close>, and a wrapped index that names another slot beyond.
\<close>

theorem CreateEntity_index_wraps:
  assumes "\<forall>idx \<in> set (m_freeList r). unat idx < length (m_generations r)"
  shows "\<exists>eid r'. CreateEntity r = Inr (eid, r') \<and>
           unat (EntityIndex eid) = unat (next_slot r) mod 2 ^ 20 \<and>
           (unat (next_slot r) < 2 ^ 20 \<longrightarrow> EntityIndex eid = next_slot r)"
proof (cases "m_freeList r = []")
  case True
  then show ?thesis
    by (simp add: CreateEntity_append next_slot_def EntityIndex_MakeEntity unat_index_mask and_INDEX_MASK)
next
  case False
  with assms have "unat (hd (m_freeList r)) < length (m_generations r)" by simp
  with False show ?thesis
    by (simp add: CreateEntity_reuse next_slot_def EntityIndex_MakeEntity unat_index_mask and_INDEX_MASK)
qed

theorem CreateEntity_index_wraps_witness:
  "let r = \<lparr>m_alive = [0], m_generations = [0, 1], m_freeList = [1],
             m_pools = [] :: (nat \<times> nat ComponentPool) list\<rparr>
   in (\<forall>idx \<in> set (m_freeList r). unat idx < length (m_generations r)) \<and>
      (\<exists>eid r'. CreateEntity r = Inr (eid, r') \<and>
           unat (EntityIndex eid) = unat (next_slot r) mod 2 ^ 20 \<and>
           (unat (next_slot r) < 2 ^ 20 \<longrightarrow> EntityIndex eid = next_slot r)) \<and>
      unat (next_slot r) < 2 ^ 20"
proof -
  let ?r = "\<lparr>m_alive = [0], m_generations = [0, 1], m_freeList = [1],
             m_pools = [] :: (nat \<times> nat ComponentPool) list\<rparr>"
  have h: "\<forall>idx \<in> set (m_freeList ?r). unat idx < length (m_generations ?r)" by simp
  have n: "unat (next_slot ?r) < 2 ^ 20" by (simp add: next_slot_def)
  from CreateEntity_index_wraps[OF h] h n show ?thesis unfolding Let_def by blast
qed

text \<open>
  The claim as stated fails: after \<open>2^20\<close> calls of \<open>CreateEntity\<close> on the empty registry,
  the next call needs slot index \<open>2^20\<close>. It returns normally, and the handle is 0, the
  handle of the first entity.
\<close>

lemma reg_run_append: "reg_run (cs @ ds) r = bindF (reg_run cs r) (reg_run ds)"
proof (induction cs arbitrary: r)
  case Nil
  then show ?case by simp
next
  case (Cons c cs)
  then show ?case by (cases "reg_step c r") simp_all
qed

lemma CreateEntity_fresh_slots:
  "CreateEntity (fresh_slots n :: ('k, 'a) Registry) =
     Inr (MakeEntity (word_of_nat n) 0, fresh_slots (Suc n))"
proof -
  have "(replicate n 0 @ [0 :: u32]) ! unat (word_of_nat n :: u32) = 0"
    using unat_word_of_nat_le[of n] by (auto simp: nth_append)
  then show ?thesis
    by (simp add: CreateEntity_append fresh_slots_def replicate_append_same)
qed

lemma reg_run_creates:
  "reg_run (replicate n Call_CreateEntity) (Registry_init :: ('k, 'a) Registry) = Inr (fresh_slots n)"
proof (induction n)
  case 0
  then show ?case by (simp add: Registry_init_def fresh_slots_def)
next
  case (Suc n)
  have "replicate (Suc n) (Call_CreateEntity :: ('k, 'a) reg_call) =
          replicate n Call_CreateEntity @ [Call_CreateEntity]"
    by (simp add: replicate_append_same)
  then show ?case
    by (simp only: reg_run_append Suc.IH) (simp add: CreateEntity_fresh_slots)
qed

theorem CreateEntity_index_wrap_counterexample:
  "reg_run (replicate 1048576 Call_CreateEntity) (Registry_init :: (nat, nat) Registry) =
     Inr (fresh_slots 1048576) \<and>
   m_alive (fresh_slots 1048576 :: (nat, nat) Registry) ! 0 = 0 \<and>
   CreateEntity (fresh_slots 1048576 :: (nat, nat) Registry) = Inr (0, fresh_slots 1048577)"
proof -
  have "MakeEntity (word_of_nat 1048576) 0 = 0"
    by (simp add: MakeEntity_def INDEX_MASK_def INDEX_BITS_def)
  moreover have "m_alive (fresh_slots 1048576 :: (nat, nat) Registry) ! 0 = 0"
    by (simp add: fresh_slots_def MakeEntity_def)
  ultimately show ?thesis
    using reg_run_creates[of 1048576] CreateEntity_fresh_slots[of 1048576]
    by simp
qed

section \<open>Well-formedness is kept by every call\<close>

lemma in_dense_iff:
  assumes "pool_inv p"
  shows "idx \<in> set (m_dense p) \<longleftrightarrow> Has p idx"
proof
  assume "idx \<in> set (m_dense p)"
  then obtain i where "i < length (m_dense p)" "m_dense p ! i = idx" by (auto simp: in_set_conv_nth)
  with dense_Has(1)[OF assms] show "Has p idx" by blast
next
  assume "Has p idx"
  from Has_dense[OF assms this] show "idx \<in> set (m_dense p)" by (metis nth_mem)
qed

lemma pool_inv_distinct:
  assumes "pool_inv p"
  shows "distinct (m_dense p)"
proof -
  have "i = j" if "i < length (m_dense p)" "j < length (m_dense p)" "m_dense p ! i = m_dense p ! j" for i j
    using dense_Has(2)[OF assms] that by metis
  then show ?thesis by (auto simp: distinct_conv_nth)
qed

lemma Remove_dense:
  assumes "pool_inv p" "Remove i p = Inr p'"
  shows "pool_inv p' \<and> set (m_dense p') = set (m_dense p) - {i}"
proof -
  from Remove_props[OF assms(1), of i] assms(2)
  have p': "pool_inv p'" "\<not> Has p' i" "\<And>j. j \<noteq> i \<Longrightarrow> Has p' j = Has p j" by auto
  have H: "Has p' idx \<longleftrightarrow> Has p idx \<and> idx \<noteq> i" for idx
    using p'(2) p'(3)[of idx] by (cases "idx = i") simp_all
  have "set (m_dense p') = set (m_dense p) - {i}"
  proof (rule set_eqI)
    fix idx
    show "idx \<in> set (m_dense p') \<longleftrightarrow> idx \<in> set (m_dense p) - {i}"
      by (simp only: Diff_iff singleton_iff in_dense_iff[OF p'(1)] in_dense_iff[OF assms(1)] H)
  qed
  with p'(1) show ?thesis by simp
qed

lemma pool_inv_Clear_pool: "pool_inv (Clear_pool p)"
  by (simp add: pool_inv_def Clear_pool_def)

lemma Remove_from_pools_Inr:
  assumes "Remove_from_pools i ps = Inr ps'"
  shows "map fst ps' = map fst ps \<and>
         (\<forall>(k, p') \<in> set ps'. \<exists>p. (k, p) \<in> set ps \<and> Remove i p = Inr p')"
  using assms
proof (induction ps arbitrary: ps')
  case Nil
  then show ?case by simp
next
  case (Cons kp ps)
  obtain k p where kp: "kp = (k, p)" by (cases kp)
  from Cons.prems obtain p1 ps1 where
    a: "Remove i p = Inr p1" "Remove_from_pools i ps = Inr ps1" "ps' = (k, p1) # ps1"
    by (auto simp: kp bindF_eq_Inr)
  from Cons.IH[OF a(2)] a(1) show ?case by (auto simp: a(3) kp)
qed

lemma set_update_subset: "set (AList.update k v ps) \<subseteq> insert (k, v) (set ps)"
  by (induction ps) auto

text \<open>Every index held by the pool is a slot of the generation table within the handle's widths.\<close>

lemma reg_invD:
  assumes "reg_inv r" "(k, p) \<in> set (m_pools r)"
  shows "pool_inv p"
    and "idx \<in> set (m_dense p) \<Longrightarrow>
           unat idx < length (m_generations r) \<and> unat idx < 2 ^ 20 \<and>
           unat (m_generations r ! unat idx) < 2 ^ 12"
  using assms unfolding reg_inv_def by blast+

lemma reg_inv_PoolPtr:
  assumes "reg_inv r" "PoolPtr k r = Some p"
  shows "pool_inv p"
    and "idx \<in> set (m_dense p) \<Longrightarrow>
           unat idx < length (m_generations r) \<and> unat idx < 2 ^ 20 \<and>
           unat (m_generations r ! unat idx) < 2 ^ 12"
proof -
  from assms(2) have "(k, p) \<in> set (m_pools r)" by (simp add: PoolPtr_def map_of_SomeD)
  from reg_invD[OF assms(1) this] show "pool_inv p"
    and "idx \<in> set (m_dense p) \<Longrightarrow>
           unat idx < length (m_generations r) \<and> unat idx < 2 ^ 20 \<and>
           unat (m_generations r ! unat idx) < 2 ^ 12" by blast+
qed

lemma reg_inv_init: "reg_inv Registry_init"
  by (simp add: reg_inv_def Registry_init_def)

lemma reg_inv_CreateEntity:
  assumes inv: "reg_inv r" and c: "CreateEntity r = Inr (eid, r')"
  shows "reg_inv r'"
proof -
  note A = CreateEntity_Inr[OF c]
  have len: "length (m_generations r) \<le> length (m_generations r')"
    and nth: "\<And>j. j < length (m_generations r) \<Longrightarrow> m_generations r' ! j = m_generations r ! j"
    using A by (auto simp: nth_append split: if_splits)
  have fl: "set (m_freeList r') \<subseteq> set (m_freeList r)"
    using A by (auto split: if_splits dest: list.set_sel(2))
  have "distinct (map fst (m_pools r'))" using inv A by (simp add: reg_inv_def)
  moreover have "pool_inv p \<and> (\<forall>idx \<in> set (m_dense p).
           unat idx < length (m_generations r') \<and> unat idx < 2 ^ 20 \<and>
           unat (m_generations r' ! unat idx) < 2 ^ 12)" if "(k, p) \<in> set (m_pools r')" for k p
  proof -
    from that A have m: "(k, p) \<in> set (m_pools r)" by simp
    have "unat idx < length (m_generations r') \<and> unat idx < 2 ^ 20 \<and>
           unat (m_generations r' ! unat idx) < 2 ^ 12" if "idx \<in> set (m_dense p)" for idx
      using reg_invD(2)[OF inv m that] len nth[of "unat idx"] by simp
    with reg_invD(1)[OF inv m] show ?thesis by blast
  qed
  moreover have "unat idx < length (m_generations r')" if "idx \<in> set (m_freeList r')" for idx
  proof -
    from that fl have "idx \<in> set (m_freeList r)" by blast
    with inv have "unat idx < length (m_generations r)" by (simp add: reg_inv_def)
    with len show ?thesis by simp
  qed
  ultimately show ?thesis unfolding reg_inv_def by blast
qed

lemma reg_inv_DestroyEntity:
  assumes inv: "reg_inv r" and d: "DestroyEntity eid r = Inr r'"
  shows "reg_inv r'"
proof (cases "IsAlive r eid")
  case False
  with d inv show ?thesis by (simp add: DestroyEntity_dead)
next
  case True
  let ?i = "EntityIndex eid"
  from d obtain ps where
    ps: "Remove_from_pools ?i (m_pools r) = Inr ps" and
    r': "r' = r\<lparr>m_pools := ps,
               m_generations := (m_generations r)[unat ?i := EntityGeneration eid + 1],
               m_freeList := m_freeList r @ [?i],
               m_alive := remove1 eid (m_alive r)\<rparr>"
    unfolding DestroyEntity_alive[OF True] by (auto simp: bindF_eq_Inr)
  note R = Remove_from_pools_Inr[OF ps]
  have il: "unat ?i < length (m_generations r)" using True by (simp add: IsAlive_iff)
  have "distinct (map fst (m_pools r'))" using inv R by (simp add: r' reg_inv_def)
  moreover have "pool_inv p' \<and> (\<forall>idx \<in> set (m_dense p').
           unat idx < length (m_generations r') \<and> unat idx < 2 ^ 20 \<and>
           unat (m_generations r' ! unat idx) < 2 ^ 12)" if "(k, p') \<in> set (m_pools r')" for k p'
  proof -
    from that R obtain p where p: "(k, p) \<in> set (m_pools r)" "Remove ?i p = Inr p'"
      by (auto simp: r')
    note P = reg_invD[OF inv p(1)]
    from Remove_dense[OF P(1) p(2)] have pi: "pool_inv p'"
      and ds: "set (m_dense p') = set (m_dense p) - {?i}" by simp_all
    have "unat idx < length (m_generations r') \<and> unat idx < 2 ^ 20 \<and>
           unat (m_generations r' ! unat idx) < 2 ^ 12" if "idx \<in> set (m_dense p')" for idx
    proof -
      from that ds have "idx \<in> set (m_dense p)" "idx \<noteq> ?i" by auto
      then have "unat idx \<noteq> unat ?i" by (simp add: word_unat_eq_iff)
      with P(2)[OF \<open>idx \<in> set (m_dense p)\<close>] show ?thesis by (simp add: r')
    qed
    with pi show ?thesis by blast
  qed
  moreover have "\<forall>idx \<in> set (m_freeList r'). unat idx < length (m_generations r')"
    using inv il by (auto simp: r' reg_inv_def)
  ultimately show ?thesis unfolding reg_inv_def by blast
qed

lemma reg_inv_update_pool:
  assumes inv: "reg_inv r"
    and p': "pool_inv p'"
    and d: "\<And>idx. idx \<in> set (m_dense p') \<Longrightarrow>
           unat idx < length (m_generations r) \<and> unat idx < 2 ^ 20 \<and>
           unat (m_generations r ! unat idx) < 2 ^ 12"
  shows "reg_inv (r\<lparr>m_pools := AList.update k p' (m_pools r)\<rparr>)"
proof -
  have "distinct (map fst (AList.update k p' (m_pools r)))"
    using inv by (simp add: reg_inv_def distinct_update)
  moreover have "pool_inv q \<and> (\<forall>idx \<in> set (m_dense q).
           unat idx < length (m_generations r) \<and> unat idx < 2 ^ 20 \<and>
           unat (m_generations r ! unat idx) < 2 ^ 12)"
    if "(k', q) \<in> set (AList.update k p' (m_pools r))" for k' q
  proof -
    from that set_update_subset[of k p' "m_pools r"]
    consider "q = p'" | "(k', q) \<in> set (m_pools r)" by auto
    then show ?thesis
    proof cases
      case 1
      with p' d show ?thesis by blast
    next
      case 2
      from reg_invD[OF inv 2] show ?thesis by blast
    qed
  qed
  ultimately show ?thesis using inv unfolding reg_inv_def by auto
qed

lemma reg_inv_AddComponent:
  assumes inv: "reg_inv r" and a: "AddComponent k eid v r = Inr r'"
  shows "reg_inv r'"
proof -
  let ?p0 = "case PoolPtr k r of None \<Rightarrow> pool_init | Some p \<Rightarrow> p"
  from AddComponent_Inr[OF a] obtain p' where
    alive: "IsAlive r eid" and e: "Emplace (EntityIndex eid) v ?p0 = Inr p'"
    and r': "r' = r\<lparr>m_pools := AList.update k p' (m_pools r)\<rparr>" by blast
  have p0: "pool_inv ?p0"
    using reg_inv_PoolPtr(1)[OF inv] pool_inv_init by (auto split: option.splits)
  have d0: "unat idx < length (m_generations r) \<and> unat idx < 2 ^ 20 \<and>
           unat (m_generations r ! unat idx) < 2 ^ 12" if "idx \<in> set (m_dense ?p0)" for idx
    using that reg_inv_PoolPtr(2)[OF inv] by (auto simp: pool_init_def split: option.splits)
  note E = Emplace_props[OF p0 e]
  have "unat idx < length (m_generations r) \<and> unat idx < 2 ^ 20 \<and>
           unat (m_generations r ! unat idx) < 2 ^ 12" if "idx \<in> set (m_dense p')" for idx
  proof (cases "idx = EntityIndex eid")
    case True
    have "unat (m_generations r ! unat (EntityIndex eid)) < 2 ^ 12"
      using alive unat_EntityGeneration[of eid] by (simp add: IsAlive_iff)
    with True alive unat_EntityIndex[of eid] show ?thesis by (simp add: IsAlive_iff)
  next
    case False
    with that E have "idx \<in> set (m_dense ?p0)" by auto
    then show ?thesis by (rule d0)
  qed
  moreover from E have "pool_inv p'" by simp
  ultimately show ?thesis unfolding r' by (intro reg_inv_update_pool[OF inv])
qed

lemma reg_inv_RemoveComponent:
  assumes inv: "reg_inv r" and a: "RemoveComponent k eid r = Inr r'"
  shows "reg_inv r'"
proof -
  from RemoveComponent_Inr[OF a] consider "r' = r"
    | p p' where "PoolPtr k r = Some p" "Remove (EntityIndex eid) p = Inr p'"
        "r' = r\<lparr>m_pools := AList.update k p' (m_pools r)\<rparr>" by blast
  then show ?thesis
  proof cases
    case 1
    with inv show ?thesis by simp
  next
    case 2
    note P = reg_inv_PoolPtr[OF inv 2(1)]
    from Remove_dense[OF P(1) 2(2)] have pi: "pool_inv p'" and sub: "set (m_dense p') \<subseteq> set (m_dense p)"
      by auto
    have "unat idx < length (m_generations r) \<and> unat idx < 2 ^ 20 \<and>
           unat (m_generations r ! unat idx) < 2 ^ 12" if "idx \<in> set (m_dense p')" for idx
      using P(2)[of idx] sub that by blast
    with pi show ?thesis unfolding 2(3) by (intro reg_inv_update_pool[OF inv])
  qed
qed

lemma reg_inv_Clear:
  assumes "reg_inv r"
  shows "reg_inv (Clear r)"
proof -
  have "fst \<circ> (\<lambda>(ti, pool). (ti, Clear_pool pool)) = (fst :: 'a \<times> 'b ComponentPool \<Rightarrow> 'a)"
    by (auto simp: fun_eq_iff)
  with assms have "distinct (map fst (m_pools (Clear r)))" by (simp add: Clear_def reg_inv_def)
  moreover have "pool_inv q \<and> m_dense q = []" if "(k, q) \<in> set (m_pools (Clear r))" for k q
  proof -
    from that obtain p where "q = Clear_pool p" by (auto simp: Clear_def)
    then show ?thesis by (simp add: pool_inv_Clear_pool) (simp add: Clear_pool_def)
  qed
  moreover have "m_freeList (Clear r) = []" by (simp add: Clear_def)
  ultimately show ?thesis unfolding reg_inv_def by fastforce
qed

lemma reg_step_inv:
  assumes "reg_inv r" "reg_step c r = Inr r'"
  shows "reg_inv r'"
proof (cases c)
  case Call_CreateEntity
  with assms show ?thesis by (auto simp: bindF_eq_Inr dest: reg_inv_CreateEntity)
next
  case (Call_DestroyEntity eid)
  with assms show ?thesis by (auto dest: reg_inv_DestroyEntity)
next
  case (Call_AddComponent k eid v)
  with assms show ?thesis by (auto dest: reg_inv_AddComponent)
next
  case (Call_RemoveComponent k eid)
  with assms show ?thesis by (auto dest: reg_inv_RemoveComponent)
next
  case (Call_GetOrAdd k eid v)
  with assms show ?thesis
    by (auto simp: bindF_eq_Inr dest!: GetOrAdd_Inr dest: reg_inv_AddComponent)
next
  case Call_Clear
  with assms show ?thesis by (auto intro: reg_inv_Clear)
qed

lemma reg_run_inv:
  assumes "reg_inv r" "reg_run cs r = Inr r'"
  shows "reg_inv r'"
  using assms
proof (induction cs arbitrary: r)
  case Nil
  then show ?case by simp
next
  case (Cons c cs)
  from Cons.prems(2) obtain r1 where s: "reg_step c r = Inr r1" and t: "reg_run cs r1 = Inr r'"
    by (auto simp: bindF_eq_Inr)
  from reg_step_inv[OF Cons.prems(1) s] t show ?case by (rule Cons.IH)
qed

section \<open>View with a visitor that keeps what the loop reads\<close>

lemma FindSmallestPool_loop_result:
  assumes "FindSmallestPool_loop ps result m = Some q"
  shows "Some q \<in> set ps \<or> result = Some q"
  using assms
  by (induction ps arbitrary: result m) (auto split: option.splits if_splits)

lemma FindSmallestPool_loop_keeps:
  assumes "None \<notin> set ps" "result \<noteq> None"
  shows "FindSmallestPool_loop ps result m \<noteq> None"
  using assms
proof (induction ps arbitrary: result m)
  case Nil
  then show ?case by simp
next
  case (Cons x xs)
  from Cons.prems(1) obtain p where x: "x = Some p" and xs: "None \<notin> set xs" by (cases x) auto
  show ?case
  proof (cases "Size p < m")
    case True
    with Cons.IH[OF xs, of "Some p" "Size p"] show ?thesis by (simp add: x)
  next
    case False
    with Cons.IH[OF xs Cons.prems(2), of m] show ?thesis by (simp add: x)
  qed
qed

lemma FindSmallestPool_loop_found:
  assumes "None \<notin> set ps" "ps \<noteq> []" "\<forall>p. Some p \<in> set ps \<longrightarrow> Size p < m"
  shows "\<exists>q. FindSmallestPool_loop ps None m = Some q \<and> Some q \<in> set ps"
proof (cases ps)
  case Nil
  with assms show ?thesis by simp
next
  case (Cons x xs)
  with assms obtain p where x: "x = Some p" by (cases x) auto
  with assms Cons have "Size p < m" by simp
  then have e: "FindSmallestPool_loop ps None m = FindSmallestPool_loop xs (Some p) (Size p)"
    by (simp add: Cons x)
  from assms(1) Cons have "None \<notin> set xs" by simp
  from FindSmallestPool_loop_keeps[OF this, of "Some p" "Size p"]
  obtain q where q: "FindSmallestPool_loop xs (Some p) (Size p) = Some q" by auto
  from FindSmallestPool_loop_result[OF q] have "Some q \<in> set ps" by (auto simp: Cons x)
  with e q show ?thesis by simp
qed

lemma Size_bound:
  assumes "pool_inv p"
  shows "Size p < 2 ^ 64 - 1"
proof -
  have "Size p < 2 ^ 32" using pool_inv_dense_bound[OF assms] by (simp add: Size_def)
  then show ?thesis by simp
qed

lemma FindSmallestPool_some:
  assumes inv: "reg_inv r" and ne: "ks \<noteq> []" and ex: "\<forall>k \<in> set ks. PoolPtr k r \<noteq> None"
  shows "\<exists>k p. k \<in> set ks \<and> PoolPtr k r = Some p \<and> FindSmallestPool ks r = Some p"
proof -
  let ?ps = "map (\<lambda>k. PoolPtr k r) ks"
  have a: "None \<notin> set ?ps" using ex by auto
  have b: "?ps \<noteq> []" using ne by simp
  have c: "\<forall>p. Some p \<in> set ?ps \<longrightarrow> Size p < 2 ^ 64 - 1"
  proof (intro allI impI)
    fix p assume "Some p \<in> set ?ps"
    then obtain k where "PoolPtr k r = Some p" by auto
    from reg_inv_PoolPtr(1)[OF inv this] show "Size p < 2 ^ 64 - 1" by (rule Size_bound)
  qed
  from FindSmallestPool_loop_found[OF a b c] obtain q where
    "FindSmallestPool_loop ?ps None (2 ^ 64 - 1) = Some q" "Some q \<in> set ?ps" by blast
  then show ?thesis unfolding FindSmallestPool_def by auto
qed

lemma Get_ok:
  assumes "pool_inv p" "Has p idx"
  shows "Get p idx = Inr (m_data p ! unat (m_sparse p ! unat idx))"
proof -
  have "unat (m_sparse p ! unat idx) < length (m_data p)"
    using Has_dense(1)[OF assms] assms(1) by (simp add: pool_inv_def)
  with assms(2) show ?thesis by (simp add: Get_def at_def)
qed

lemma MakeEntity_slot:
  assumes "unat idx < 2 ^ 20" "unat g < 2 ^ 12"
  shows "EntityIndex (MakeEntity idx g) = idx" "EntityGeneration (MakeEntity idx g) = g"
  using assms by (simp_all add: EntityIndex_MakeEntity EntityGeneration_MakeEntity and_INDEX_MASK and_GEN_MASK)

lemma HasComponent_HasAt: "HasComponent k eid r = HasAt k (EntityIndex eid) r"
  by (simp add: HasComponent_def HasAt_def)

lemma pool_inv_shape: "pool_shape p' = pool_shape p \<Longrightarrow> pool_inv p' = pool_inv p"
  by (simp add: pool_shape_def pool_inv_def)

lemma Has_shape: "pool_shape p' = pool_shape p \<Longrightarrow> Has p' idx = Has p idx"
  by (simp add: pool_shape_def Has_def)

lemma shape_gens: "shape r2 = shape r1 \<Longrightarrow> m_generations r2 = m_generations r1"
  by (simp add: shape_def)

lemma map_of_shape:
  "map_of (map (\<lambda>(k, p). (k, pool_shape p)) ps) k = map_option pool_shape (map_of ps k)"
  by (induction ps) auto

lemma shape_PoolPtr:
  assumes "shape r2 = shape r1"
  shows "map_option pool_shape (PoolPtr k r2) = map_option pool_shape (PoolPtr k r1)"
proof -
  from assms have "map (\<lambda>(k, p). (k, pool_shape p)) (m_pools r2) =
                   map (\<lambda>(k, p). (k, pool_shape p)) (m_pools r1)" by (simp add: shape_def)
  then have "map_of (map (\<lambda>(k, p). (k, pool_shape p)) (m_pools r2)) k =
             map_of (map (\<lambda>(k, p). (k, pool_shape p)) (m_pools r1)) k" by simp
  then show ?thesis by (simp add: map_of_shape PoolPtr_def)
qed

lemma HasAt_shape:
  assumes "shape r2 = shape r1"
  shows "HasAt k idx r2 = HasAt k idx r1"
proof -
  note e = shape_PoolPtr[OF assms, of k]
  show ?thesis
  proof (cases "PoolPtr k r1")
    case n1: None
    from e have "PoolPtr k r2 = None" unfolding n1 by simp
    with n1 show ?thesis by (simp add: HasAt_def)
  next
    case s1: (Some p1)
    from e obtain p2 where s2: "PoolPtr k r2 = Some p2" and ps: "pool_shape p2 = pool_shape p1"
      unfolding s1 by (cases "PoolPtr k r2") simp_all
    show ?thesis by (simp add: HasAt_def s1 s2 Has_shape[OF ps])
  qed
qed

lemma HasAllAt_shape:
  assumes "shape r2 = shape r1"
  shows "HasAllAt ks idx r2 = HasAllAt ks idx r1"
  by (simp add: HasAllAt_def HasAt_shape[OF assms])

lemma reg_inv_pools_inv: "reg_inv r \<Longrightarrow> pools_inv r"
  by (simp add: reg_inv_def pools_inv_def)

lemma map_fst_shape: "map fst (map (\<lambda>(k, p). (k, pool_shape p)) ps) = map fst ps"
  by (induction ps) auto

lemma pools_inv_shape:
  assumes s: "shape r2 = shape r1" and inv: "pools_inv r1"
  shows "pools_inv r2"
proof -
  let ?g = "\<lambda>(k, p). (k, pool_shape p)"
  from s have m: "map ?g (m_pools r2) = map ?g (m_pools r1)" by (simp add: shape_def)
  from m have "map fst (map ?g (m_pools r2)) = map fst (map ?g (m_pools r1))" by simp
  then have keys: "map fst (m_pools r2) = map fst (m_pools r1)" by (simp only: map_fst_shape)
  have "pool_inv p' \<and> (\<forall>idx \<in> set (m_dense p').
           unat idx < length (m_generations r2) \<and> unat idx < 2 ^ 20 \<and>
           unat (m_generations r2 ! unat idx) < 2 ^ 12)" if "(k, p') \<in> set (m_pools r2)" for k p'
  proof -
    from that have "(k, pool_shape p') \<in> set (map ?g (m_pools r2))" by force
    with m have "(k, pool_shape p') \<in> set (map ?g (m_pools r1))" by simp
    then obtain p where p: "(k, p) \<in> set (m_pools r1)" "pool_shape p = pool_shape p'" by auto
    from inv p(1) have "pool_inv p \<and> (\<forall>idx \<in> set (m_dense p).
           unat idx < length (m_generations r1) \<and> unat idx < 2 ^ 20 \<and>
           unat (m_generations r1 ! unat idx) < 2 ^ 12)" unfolding pools_inv_def by blast
    moreover have "m_dense p' = m_dense p" using p(2) by (simp add: pool_shape_def)
    moreover have "pool_inv p' = pool_inv p" by (rule pool_inv_shape[OF p(2)[symmetric]])
    ultimately show ?thesis by (simp add: shape_gens[OF s])
  qed
  with keys inv show ?thesis unfolding pools_inv_def by auto
qed

lemma pools_inv_PoolPtr:
  assumes "pools_inv r" "PoolPtr k r = Some p"
  shows "pool_inv p"
    and "idx \<in> set (m_dense p) \<Longrightarrow>
           unat idx < length (m_generations r) \<and> unat idx < 2 ^ 20 \<and>
           unat (m_generations r ! unat idx) < 2 ^ 12"
proof -
  from assms(2) have "(k, p) \<in> set (m_pools r)" by (simp add: PoolPtr_def map_of_SomeD)
  with assms(1) show "pool_inv p"
    and "idx \<in> set (m_dense p) \<Longrightarrow>
           unat idx < length (m_generations r) \<and> unat idx < 2 ^ 20 \<and>
           unat (m_generations r ! unat idx) < 2 ^ 12" unfolding pools_inv_def by blast+
qed

lemma Get_all_owned:
  assumes "pools_inv r" "HasAllAt ks idx r"
  shows "\<exists>cs. Get_all ks idx r = Inr (cs, r)"
  using assms(2)
proof (induction ks)
  case Nil
  then show ?case by simp
next
  case (Cons k ks)
  from Cons.prems obtain p where p: "PoolPtr k r = Some p" "Has p idx" and rest: "HasAllAt ks idx r"
    by (auto simp: HasAllAt_def HasAt_def split: option.splits)
  from Cons.IH[OF rest] obtain cs where cs: "Get_all ks idx r = Inr (cs, r)" by blast
  have "Pool k r = (p, r)" using p(1) by (simp add: Pool_def PoolPtr_def)
  moreover note Get_ok[OF pools_inv_PoolPtr(1)[OF assms(1) p(1)] p(2)]
  ultimately show ?case using cs by simp
qed

lemma HasAllAt_slot:
  assumes "pools_inv r" "ks \<noteq> []" "HasAllAt ks idx r"
  shows "unat idx < 2 ^ 20"
proof -
  from assms(2) obtain k ks' where "ks = k # ks'" by (cases ks) auto
  with assms(3) obtain p where p: "PoolPtr k r = Some p" "Has p idx"
    by (auto simp: HasAllAt_def HasAt_def split: option.splits)
  note P = pools_inv_PoolPtr[OF assms(1) p(1)]
  from p(2) have "idx \<in> set (m_dense p)" by (simp add: in_dense_iff[OF P(1)])
  from P(2)[OF this] show ?thesis by simp
qed

lemma View_loop_visits:
  assumes keep: "\<And>eid cs r1 r2. fn eid cs r1 = Inr r2 \<Longrightarrow> shape r2 = shape r1"
    and ne: "ks \<noteq> []"
    and inv: "pools_inv r"
  shows "View_loop ks fn idxs r =
           bindF (visit_all fn ks
                    (map (\<lambda>idx. MakeEntity idx (m_generations r ! unat idx))
                       (filter (\<lambda>idx. HasAllAt ks idx r \<and> unat idx < length (m_generations r)) idxs)) r)
             (\<lambda>r'. Inr (map (\<lambda>idx. MakeEntity idx (m_generations r ! unat idx))
                       (filter (\<lambda>idx. HasAllAt ks idx r \<and> unat idx < length (m_generations r)) idxs), r'))"
  using inv
proof (induction idxs arbitrary: r)
  case Nil
  then show ?case by simp
next
  case (Cons idx idxs)
  let ?mk = "\<lambda>r idx. MakeEntity idx (m_generations r ! unat idx)"
  let ?ok = "\<lambda>r idx. HasAllAt ks idx r \<and> unat idx < length (m_generations r)"
  show ?case
  proof (cases "?ok r idx")
    case False
    with Cons.IH[OF Cons.prems] show ?thesis by auto
  next
    case True
    from Get_all_owned[OF Cons.prems] True obtain cs where g: "Get_all ks idx r = Inr (cs, r)" by blast
    have ei: "EntityIndex (?mk r idx) = idx"
      using HasAllAt_slot[OF Cons.prems ne] True by (simp add: EntityIndex_MakeEntity and_INDEX_MASK)
    define vs where "vs = map (?mk r) (filter (?ok r) idxs)"
    define e where "e = ?mk r idx"
    have fl: "map (?mk r) (filter (?ok r) (idx # idxs)) = e # vs"
      using True by (simp add: vs_def e_def)
    have L: "View_loop ks fn (idx # idxs) r =
               bindF (fn e cs r) (\<lambda>r2. bindF (View_loop ks fn idxs r2) (\<lambda>(visited, r3). Inr (e # visited, r3)))"
      using True g by (simp add: Let_def e_def)
    have R: "visit_all fn ks (e # vs) r = bindF (fn e cs r) (visit_all fn ks vs)"
      using g ei by (simp add: e_def)
    show ?thesis
    proof (cases "fn e cs r")
      case (Inl f)
      then show ?thesis unfolding fl L R by simp
    next
      case (Inr r2)
      from keep[OF Inr] have s: "shape r2 = shape r" .
      have same: "?mk r2 = ?mk r" "?ok r2 = ?ok r"
        by (simp_all add: shape_gens[OF s] HasAllAt_shape[OF s])
      have "View_loop ks fn idxs r2 =
              bindF (visit_all fn ks (map (?mk r2) (filter (?ok r2) idxs)) r2)
                (\<lambda>r'. Inr (map (?mk r2) (filter (?ok r2) idxs), r'))"
        by (rule Cons.IH[OF pools_inv_shape[OF s Cons.prems]])
      then have IH: "View_loop ks fn idxs r2 = bindF (visit_all fn ks vs r2) (\<lambda>r'. Inr (vs, r'))"
        unfolding same vs_def .
      show ?thesis
      proof (cases "visit_all fn ks vs r2")
        case (Inl f)
        with Inr IH show ?thesis unfolding fl L R by simp
      next
        case Inr': (Inr r3)
        with Inr IH show ?thesis unfolding fl L R by simp
      qed
    qed
  qed
qed

lemma owners_list:
  assumes inv: "reg_inv r" and k0: "k0 \<in> set ks" "PoolPtr k0 r = Some p"
  shows "distinct (map (\<lambda>idx. MakeEntity idx (m_generations r ! unat idx))
                     (filter (\<lambda>idx. HasAllAt ks idx r \<and> unat idx < length (m_generations r)) (m_dense p)))"
    and "set (map (\<lambda>idx. MakeEntity idx (m_generations r ! unat idx))
                     (filter (\<lambda>idx. HasAllAt ks idx r \<and> unat idx < length (m_generations r)) (m_dense p))) =
         {h. IsAlive r h \<and> (\<forall>k \<in> set ks. HasComponent k h r)}"
proof -
  note P = reg_inv_PoolPtr[OF inv k0(2)]
  let ?S = "{h. IsAlive r h \<and> (\<forall>k \<in> set ks. HasComponent k h r)}"
  let ?mk = "\<lambda>idx. MakeEntity idx (m_generations r ! unat idx)"
  let ?ok = "\<lambda>idx. HasAllAt ks idx r \<and> unat idx < length (m_generations r)"
  let ?vis = "map ?mk (filter ?ok (m_dense p))"
  have idx_of: "EntityIndex (?mk idx) = idx" "EntityGeneration (?mk idx) = m_generations r ! unat idx"
    if "idx \<in> set (m_dense p)" for idx
    using P(2)[OF that] by (simp_all add: MakeEntity_slot)
  show "distinct ?vis"
  proof -
    have "inj_on ?mk (set (filter ?ok (m_dense p)))"
    proof (rule inj_onI)
      fix a b assume "a \<in> set (filter ?ok (m_dense p))" "b \<in> set (filter ?ok (m_dense p))"
        and eq: "?mk a = ?mk b"
      then have "a \<in> set (m_dense p)" "b \<in> set (m_dense p)" by auto
      from idx_of(1)[OF this(1)] idx_of(1)[OF this(2)] eq show "a = b" by metis
    qed
    moreover have "distinct (filter ?ok (m_dense p))"
      using pool_inv_distinct[OF P(1)] by simp
    ultimately show ?thesis by (simp add: distinct_map)
  qed
  have sub1: "h \<in> ?S" if "h \<in> set ?vis" for h
  proof -
    from that have "h \<in> ?mk ` set (filter ?ok (m_dense p))" by (simp only: set_map)
    then obtain idx where "idx \<in> set (filter ?ok (m_dense p))" and h: "h = ?mk idx" by (rule imageE)
    then have idx: "idx \<in> set (m_dense p)" "HasAllAt ks idx r"
      "unat idx < length (m_generations r)" "h = ?mk idx" by simp_all
    from idx_of[OF idx(1)] idx(3) have "IsAlive r h" by (simp add: IsAlive_iff idx(4))
    moreover have "HasComponent k h r" if "k \<in> set ks" for k
      using idx(2) that idx_of(1)[OF idx(1)]
      by (simp add: HasComponent_HasAt idx(4) HasAllAt_def list_all_iff)
    ultimately show ?thesis by simp
  qed
  have sub2: "h \<in> set ?vis" if "h \<in> ?S" for h
  proof -
    let ?i = "EntityIndex h"
    from that have alive: "IsAlive r h" and all: "\<forall>k \<in> set ks. HasAt k ?i r"
      by (simp_all add: HasComponent_HasAt)
    from all k0 have "Has p ?i" by (auto simp: HasAt_def)
    then have m: "?i \<in> set (m_dense p)" by (simp add: in_dense_iff[OF P(1)])
    have ok: "?ok ?i" using all alive by (simp add: HasAllAt_def list_all_iff IsAlive_iff)
    have "?mk ?i = h" using alive MakeEntity_parts[of h] by (simp add: IsAlive_iff)
    moreover have "?i \<in> set (filter ?ok (m_dense p))" using m ok by simp
    then have "?mk ?i \<in> ?mk ` set (filter ?ok (m_dense p))" by (rule imageI)
    ultimately show ?thesis by (simp only: set_map)
  qed
  show "set ?vis = ?S"
  proof (rule set_eqI)
    fix h show "h \<in> set ?vis \<longleftrightarrow> h \<in> ?S" using sub1[of h] sub2[of h] by (rule iffI)
  qed
qed

lemma View_visits:
  assumes inv: "reg_inv r"
    and keep: "\<And>eid cs r1 r2. fn eid cs r1 = Inr r2 \<Longrightarrow> shape r2 = shape r1"
    and ne: "ks \<noteq> []"
  shows "\<exists>visited. distinct visited \<and>
           set visited = {h. IsAlive r h \<and> (\<forall>k \<in> set ks. HasComponent k h r)} \<and>
           View ks fn r = bindF (visit_all fn ks visited r) (\<lambda>r'. Inr (visited, r'))"
proof (cases "\<forall>k \<in> set ks. PoolPtr k r \<noteq> None")
  case False
  then obtain k where k: "k \<in> set ks" "PoolPtr k r = None" by blast
  then have "\<not> HasComponent k h r" for h by (simp add: HasComponent_def)
  with k(1) have "{h. IsAlive r h \<and> (\<forall>k \<in> set ks. HasComponent k h r)} = {}" by blast
  moreover have "View ks fn r = bindF (visit_all fn ks [] r) (\<lambda>r'. Inr ([], r'))"
    using View_no_pool[OF k, of fn] by simp
  ultimately have "distinct [] \<and> set [] = {h. IsAlive r h \<and> (\<forall>k \<in> set ks. HasComponent k h r)} \<and>
     View ks fn r = bindF (visit_all fn ks [] r) (\<lambda>r'. Inr ([], r'))" by simp
  then show ?thesis by (rule exI)
next
  case True
  from FindSmallestPool_some[OF inv ne True] obtain k0 p where
    k0: "k0 \<in> set ks" "PoolPtr k0 r = Some p" and f: "FindSmallestPool ks r = Some p" by blast
  define vis where "vis = map (\<lambda>idx. MakeEntity idx (m_generations r ! unat idx))
                     (filter (\<lambda>idx. HasAllAt ks idx r \<and> unat idx < length (m_generations r)) (m_dense p))"
  note O = owners_list[OF inv k0, folded vis_def]
  have "View ks fn r = bindF (visit_all fn ks vis r) (\<lambda>r'. Inr (vis, r'))"
  proof (cases "Size p = 0")
    case True
    then have "vis = []" by (simp add: Size_def vis_def)
    with f True show ?thesis by (simp add: View_def)
  next
    case False
    with f have "View ks fn r = View_loop ks fn (m_dense p) r"
      by (simp add: View_def EntityIndices_def)
    also have "\<dots> = bindF (visit_all fn ks vis r) (\<lambda>r'. Inr (vis, r'))"
      unfolding vis_def using keep ne reg_inv_pools_inv[OF inv] by (rule View_loop_visits)
    finally show ?thesis .
  qed
  with O show ?thesis by blast
qed

lemma update_same_shape:
  assumes "map_of ps k = Some p" "pool_shape p' = pool_shape p"
  shows "map (\<lambda>(k, p). (k, pool_shape p)) (AList.update k p' ps) = map (\<lambda>(k, p). (k, pool_shape p)) ps"
  using assms by (induction ps) auto

lemma Assign_shape:
  assumes "Assign k idx v r = Inr r2"
  shows "shape r2 = shape r"
proof -
  from assms obtain p where p: "PoolPtr k r = Some p" unfolding Assign_def by (cases "PoolPtr k r") simp_all
  from assms p obtain d where d: "put (m_data p) (m_sparse p ! unat idx) v = Inr d"
    and r2: "r2 = r\<lparr>m_pools := AList.update k (p\<lparr>m_data := d\<rparr>) (m_pools r)\<rparr>"
    unfolding Assign_def by (cases "put (m_data p) (m_sparse p ! unat idx) v") (auto split: if_splits)
  from d have "length d = length (m_data p)" by (auto simp: put_def split: if_splits)
  then have "pool_shape (p\<lparr>m_data := d\<rparr>) = pool_shape p" by (simp add: pool_shape_def)
  from update_same_shape[OF _ this, of "m_pools r" k] p show ?thesis
    by (simp add: r2 shape_def PoolPtr_def)
qed

text \<open>
  Claim C3 (query completeness). On a well-formed registry, with a visitor that may fault and
  may write to the components it is handed (or to anything else that leaves the generation
  table and the sparse and dense arrays of the pools as they are), \<open>View<A,B>\<close> invokes
  the visitor, in order, on a list of pairwise distinct ids which are exactly the live handles
  that own both \<open>A\<close> and \<open>B\<close>: its outcome is the outcome of applying the visitor once to
  each of them (the final registry, or the first fault), and the ids visited are that list.
  The characterisation does not mention pool sizes, so the visited set is the same whichever
  of the two pools is the smaller, driving one.
\<close>

theorem View_visits_exactly_owners:
  assumes "reg_inv r"
    and "\<And>eid cs r1 r2. fn eid cs r1 = Inr r2 \<Longrightarrow> shape r2 = shape r1"
  shows "\<exists>visited. distinct visited \<and>
           set visited = {h. IsAlive r h \<and> HasComponent A h r \<and> HasComponent B h r} \<and>
           View [A, B] fn r = bindF (visit_all fn [A, B] visited r) (\<lambda>r'. Inr (visited, r'))"
proof -
  have "[A, B] \<noteq> []" by simp
  from View_visits[where ks = "[A, B]" and fn = fn, OF assms(1) assms(2) this] show ?thesis by simp
qed

lemma three_entities_reachable:
  "reg_run [Call_CreateEntity, Call_CreateEntity, Call_CreateEntity,
            Call_AddComponent Position 0 10, Call_AddComponent Position 1 11, Call_AddComponent Position 2 12,
            Call_AddComponent Velocity 0 20, Call_AddComponent Velocity 2 22] Registry_init = Inr three_entities"
  by code_simp

lemma View_add_velocity:
  "View [Position, Velocity] add_velocity three_entities = Inr ([0, 2], three_entities_moved)"
proof -
  have f: "FindSmallestPool [Position, Velocity] three_entities =
             Some \<lparr>m_sparse = [0, EMPTY, 1], m_dense = [0, 2], m_data = [20, 22]\<rparr>"
    by (simp add: FindSmallestPool_def PoolPtr_def Size_def three_entities_def)
  have v: "View [Position, Velocity] add_velocity three_entities =
             View_loop [Position, Velocity] add_velocity [0, 2] three_entities"
    by (simp add: View_def f Size_def EntityIndices_def del: View_loop.simps)
  show ?thesis unfolding v by code_simp
qed

theorem View_visits_exactly_owners_witness:
  "reg_run [Call_CreateEntity, Call_CreateEntity, Call_CreateEntity,
            Call_AddComponent Position 0 10, Call_AddComponent Position 1 11, Call_AddComponent Position 2 12,
            Call_AddComponent Velocity 0 20, Call_AddComponent Velocity 2 22] Registry_init = Inr three_entities \<and>
   reg_inv three_entities \<and>
   View [Position, Velocity] add_velocity three_entities = Inr ([0, 2], three_entities_moved) \<and>
   (\<exists>visited. distinct visited \<and>
      set visited = {h. IsAlive three_entities h \<and> HasComponent Position h three_entities \<and>
                        HasComponent Velocity h three_entities} \<and>
      View [Position, Velocity] add_velocity three_entities =
        bindF (visit_all add_velocity [Position, Velocity] visited three_entities) (\<lambda>r'. Inr (visited, r')))"
proof -
  have inv: "reg_inv three_entities" using reg_inv_init three_entities_reachable by (rule reg_run_inv)
  have keep: "\<And>eid cs r1 r2. add_velocity eid cs r1 = Inr r2 \<Longrightarrow> shape r2 = shape r1"
    unfolding add_velocity_def by (rule Assign_shape)
  have "\<exists>visited. distinct visited \<and>
      set visited = {h. IsAlive three_entities h \<and> HasComponent Position h three_entities \<and>
                        HasComponent Velocity h three_entities} \<and>
      View [Position, Velocity] add_velocity three_entities =
        bindF (visit_all add_velocity [Position, Velocity] visited three_entities) (\<lambda>r'. Inr (visited, r'))"
    using inv keep by (rule View_visits_exactly_owners)
  with three_entities_reachable inv View_add_velocity show ?thesis by blast
qed
section \<open>Each with a mutating visitor\<close>

lemma owns_allD:
  assumes "owns_all k S r"
  shows "\<exists>p. PoolPtr k r = Some p \<and> pool_inv p \<and> (\<forall>idx \<in> set S. Has p idx)"
  using assms by (auto simp: owns_all_def split: option.splits)

lemma owns_all_snapshot:
  assumes "reg_inv r" "PoolPtr k r = Some p"
  shows "owns_all k (m_dense p) r"
  using reg_inv_PoolPtr(1)[OF assms] assms(2)
  by (simp add: owns_all_def in_dense_iff)









lemma HasAt_PoolPtr: "PoolPtr k r = Some p \<Longrightarrow> HasAt k i r = Has p i"
  by (simp add: HasAt_def)

lemma spawn_props:
  assumes o: "owns_all k S r" and s: "spawn k v r = Inr r2"
  shows "owns_all k S r2 \<and>
         (\<exists>e. m_alive r2 = m_alive r @ [e] \<and> EntityIndex e \<notin> set S \<and> HasAt k (EntityIndex e) r2) \<and>
         (\<forall>i. HasAt k i r \<longrightarrow> HasAt k i r2)"
proof -
  from s obtain e r1 where c: "CreateEntity r = Inr (e, r1)" and a: "AddComponent k e v r1 = Inr r2"
    by (auto simp: spawn_def bindF_eq_Inr)
  from owns_allD[OF o] obtain p where
    p: "PoolPtr k r = Some p" "pool_inv p" "\<forall>idx \<in> set S. Has p idx" by blast
  note C = CreateEntity_Inr[OF c]
  have p1: "PoolPtr k r1 = Some p" using C p(1) by (simp add: PoolPtr_def)
  from AddComponent_Inr[OF a] obtain p' where
    e: "Emplace (EntityIndex e) v p = Inr p'" and
    r2: "r2 = r1\<lparr>m_pools := AList.update k p' (m_pools r1)\<rparr>" by (auto simp: p1)
  note E = Emplace_props[OF p(2) e]
  have p2: "PoolPtr k r2 = Some p'" by (simp add: r2 PoolPtr_def update_conv')
  have notin: "EntityIndex e \<notin> set S" using E p(3) by blast
  have keep: "Has p' i" if "Has p i" for i
  proof (cases "i = EntityIndex e")
    case True
    with E show ?thesis by simp
  next
    case False
    with E that show ?thesis by simp
  qed
  have "owns_all k S r2" using p(3) keep E by (simp add: owns_all_def p2)
  moreover have "m_alive r2 = m_alive r @ [e]" using C by (simp add: r2)
  moreover have "HasAt k (EntityIndex e) r2" using E by (simp add: HasAt_PoolPtr[OF p2])
  moreover have "\<forall>i. HasAt k i r \<longrightarrow> HasAt k i r2"
    using keep by (simp add: HasAt_PoolPtr[OF p2] HasAt_PoolPtr[OF p(1)])
  ultimately show ?thesis using notin by blast
qed

lemma intactD:
  assumes "intact k r0 r1"
  shows "owns_all k (Each_snapshot k r0) r1"
    and "idx \<in> set (Each_snapshot k r0) \<Longrightarrow> unat idx < length (m_generations r1)"
    and "idx \<in> set (Each_snapshot k r0) \<Longrightarrow> m_generations r1 ! unat idx = m_generations r0 ! unat idx"
  using assms unfolding intact_def by blast+

lemma intact_start:
  assumes "reg_inv r" "PoolPtr k r = Some p"
  shows "intact k r r"
proof -
  have s: "Each_snapshot k r = m_dense p" by (simp add: Each_snapshot_def assms(2) EntityIndices_def)
  have "owns_all k (m_dense p) r" by (rule owns_all_snapshot[OF assms])
  moreover have "unat idx < length (m_generations r)" if "idx \<in> set (m_dense p)" for idx
    using reg_inv_PoolPtr(2)[OF assms that] by simp
  ultimately show ?thesis by (simp add: intact_def s)
qed

lemma Each_loop_intact:
  assumes keep: "\<And>idx c r1 r2. idx \<in> set (Each_snapshot k r0) \<Longrightarrow> intact k r0 r1 \<Longrightarrow>
        Each_Get k idx r1 = Inr c \<Longrightarrow>
        fn (MakeEntity idx (m_generations r0 ! unat idx)) c r1 = Inr r2 \<Longrightarrow> intact k r0 r2"
    and start: "intact k r0 r"
    and sub: "set idxs \<subseteq> set (Each_snapshot k r0)"
    and run: "Each_loop k fn idxs r = Inr (visited, r')"
  shows "visited = map (\<lambda>idx. MakeEntity idx (m_generations r0 ! unat idx)) idxs"
  using start sub run
proof (induction idxs arbitrary: r visited)
  case Nil
  then show ?case by simp
next
  case (Cons idx idxs)
  from Cons.prems(2) have sub': "set idxs \<subseteq> set (Each_snapshot k r0)"
    and mem: "idx \<in> set (Each_snapshot k r0)" by auto
  note I = intactD[OF Cons.prems(1)]
  have b: "unat idx < length (m_generations r)" by (rule I(2)[OF mem])
  have g: "m_generations r ! unat idx = m_generations r0 ! unat idx" by (rule I(3)[OF mem])
  let ?eid = "MakeEntity idx (m_generations r0 ! unat idx)"
  from Cons.prems(3) b g obtain c r1 vs where
    c: "Each_Get k idx r = Inr c" and f: "fn ?eid c r = Inr r1"
    and l: "Each_loop k fn idxs r1 = Inr (vs, r')" and v: "visited = ?eid # vs"
    by (auto simp: Let_def bindF_eq_Inr)
  from keep[OF mem Cons.prems(1) c f] have "intact k r0 r1" .
  from Cons.IH[OF this sub' l] v show ?case by simp
qed

lemma created_not_in_snapshot:
  assumes o: "owns_all k S r1" and c: "CreateEntity r1 = Inr (e, r2)"
    and a: "AddComponent k e v r2 = Inr r3"
  shows "EntityIndex e \<notin> set S"
proof -
  from owns_allD[OF o] obtain p where
    p: "PoolPtr k r1 = Some p" "pool_inv p" "\<forall>idx \<in> set S. Has p idx" by blast
  note C = CreateEntity_Inr[OF c]
  have p2: "PoolPtr k r2 = Some p" using C p(1) by (simp add: PoolPtr_def)
  from AddComponent_Inr[OF a] obtain p' where
    e: "Emplace (EntityIndex e) v p = Inr p'" by (auto simp: p2)
  from Emplace_props[OF p(2) e] have "\<not> Has p (EntityIndex e)" by simp
  with p(3) show ?thesis by blast
qed

text \<open>
  Claim C6 (snapshot isolation), as the code has it. On a well-formed registry, if no visit of
  the callback of \<open>Each<A>\<close> frees a slot of the snapshot or removes its \<open>A\<close> (whatever else
  it does, at all visits or at some: create entities, attach components, destroy other
  entities) and the call returns, then the ids visited are exactly those of the snapshot,
  under the handles they had when the call started; each of them was alive and owned an
  \<open>A\<close> at that moment; and an entity that is created and given an \<open>A\<close>, in any state in
  which the snapshot is intact, is not among them.
\<close>

theorem Each_snapshot_isolation:
  assumes inv: "reg_inv r"
    and keep: "\<And>idx c r1 r2. idx \<in> set (Each_snapshot k r) \<Longrightarrow> intact k r r1 \<Longrightarrow>
        Each_Get k idx r1 = Inr c \<Longrightarrow>
        fn (MakeEntity idx (m_generations r ! unat idx)) c r1 = Inr r2 \<Longrightarrow> intact k r r2"
    and run: "Each k fn r = Inr (visited, r')"
  shows "visited = map (\<lambda>idx. MakeEntity idx (m_generations r ! unat idx)) (Each_snapshot k r) \<and>
         (\<forall>e \<in> set visited. IsAlive r e \<and> HasComponent k e r) \<and>
         (\<forall>r1 e r2 v r3. intact k r r1 \<longrightarrow> CreateEntity r1 = Inr (e, r2) \<longrightarrow>
              AddComponent k e v r2 = Inr r3 \<longrightarrow> e \<notin> set visited)"
proof (cases "PoolPtr k r")
  case None
  with run show ?thesis by (simp add: Each_def Each_snapshot_def)
next
  case (Some p)
  have s: "Each_snapshot k r = m_dense p" by (simp add: Each_snapshot_def Some EntityIndices_def)
  note P = reg_inv_PoolPtr[OF inv Some]
  let ?mk = "\<lambda>idx. MakeEntity idx (m_generations r ! unat idx)"
  have v: "visited = map ?mk (m_dense p)"
  proof (cases "Size p = 0")
    case True
    with Some run show ?thesis by (simp add: Each_def Size_def)
  next
    case False
    with Some run have l: "Each_loop k fn (m_dense p) r = Inr (visited, r')"
      by (simp add: Each_def EntityIndices_def)
    have sub: "set (m_dense p) \<subseteq> set (Each_snapshot k r)" by (simp add: s)
    from keep intact_start[OF inv Some] sub l show ?thesis by (rule Each_loop_intact)
  qed
  have slot: "EntityIndex (?mk idx) = idx" "EntityGeneration (?mk idx) = m_generations r ! unat idx"
    if "idx \<in> set (m_dense p)" for idx
    using P(2)[OF that] by (simp_all add: MakeEntity_slot)
  have old: "IsAlive r e \<and> HasComponent k e r" if "e \<in> set visited" for e
  proof -
    from that v obtain idx where idx: "idx \<in> set (m_dense p)" "e = ?mk idx" by auto
    from slot[OF idx(1)] P(2)[OF idx(1)] have "IsAlive r e" by (simp add: IsAlive_iff idx(2))
    moreover have "Has p idx" using idx(1) by (simp add: in_dense_iff[OF P(1)])
    then have "HasComponent k e r"
      using slot(1)[OF idx(1)] by (simp add: HasComponent_def Some idx(2))
    ultimately show ?thesis by simp
  qed
  have new: "e \<notin> set visited"
    if "intact k r r1" "CreateEntity r1 = Inr (e, r2)" "AddComponent k e v r2 = Inr r3"
    for r1 e r2 v r3
  proof
    assume "e \<in> set visited"
    with v obtain idx where idx: "idx \<in> set (m_dense p)" "e = ?mk idx" by auto
    from slot(1)[OF idx(1)] idx have "EntityIndex e \<in> set (m_dense p)" by simp
    moreover from created_not_in_snapshot[OF intactD(1)[OF that(1)] that(2,3)]
    have "EntityIndex e \<notin> set (m_dense p)" by (simp add: s)
    ultimately show False by simp
  qed
  from v old new show ?thesis unfolding s by blast
qed

subsection \<open>Concrete runs of \<open>Each\<close>\<close>

lemma Each_loop_step:
  assumes "unat idx < length (m_generations r)"
    and "MakeEntity idx (m_generations r ! unat idx) = eid"
    and "Each_Get k idx r = Inr c"
    and "fn eid c r = Inr r1"
    and "Each_loop k fn rest r1 = Inr (vs, r')"
  shows "Each_loop k fn (idx # rest) r = Inr (eid # vs, r')"
  using assms by (simp add: Let_def)


lemma Each_nonempty:
  assumes "PoolPtr k r = Some p" "m_dense p \<noteq> []"
  shows "Each k fn r = Each_loop k fn (m_dense p) r"
  using assms by (simp add: Each_def Size_def EntityIndices_def)

lemma two_positions_reachable:
  "reg_run [Call_CreateEntity, Call_CreateEntity,
            Call_AddComponent Position 0 10, Call_AddComponent Position 1 11] Registry_init =
     Inr two_positions"
  by code_simp

lemma two_positions_inv: "reg_inv two_positions"
  using reg_inv_init two_positions_reachable by (rule reg_run_inv)

lemma two_positions_pool:
  "PoolPtr Position two_positions =
     Some \<lparr>m_sparse = [0, 1], m_dense = [0, 1], m_data = [10, 11]\<rparr>"
  by (simp add: PoolPtr_def two_positions_def)

lemma two_positions_first:
  "unat (0 :: u32) < length (m_generations two_positions)"
  "MakeEntity 0 (m_generations two_positions ! unat (0 :: u32)) = 0"
  "Each_Get Position 0 two_positions = Inr 10"
  by (simp_all add: two_positions_def MakeEntity_def Each_Get_def PoolPtr_def Get_def Has_def at_def
      EMPTY_def)








lemma spawn_intact:
  assumes i: "intact k r0 r1" and s: "spawn k v r1 = Inr r2"
  shows "intact k r0 r2"
proof -
  note I = intactD[OF i]
  from spawn_props[OF I(1) s] have o: "owns_all k (Each_snapshot k r0) r2" by blast
  from s obtain e ra where c: "CreateEntity r1 = Inr (e, ra)" and a: "AddComponent k e v ra = Inr r2"
    by (auto simp: spawn_def bindF_eq_Inr)
  from AddComponent_Inr[OF a] have g2: "m_generations r2 = m_generations ra" by auto
  from CreateEntity_Inr[OF c] have
    ga: "m_generations ra = m_generations r1 \<or> m_generations ra = m_generations r1 @ [0]"
    by (auto split: if_splits)
  have "unat idx < length (m_generations r2) \<and>
        m_generations r2 ! unat idx = m_generations r0 ! unat idx"
    if "idx \<in> set (Each_snapshot k r0)" for idx
    using I(2)[OF that] I(3)[OF that] ga by (auto simp: g2 nth_append)
  with o show ?thesis by (simp add: intact_def)
qed

lemma Each_spawn_at_first_run:
  "Each Position spawn_at_first two_positions = Inr ([0, 1], two_positions_spawned)"
proof -
  have f0: "spawn_at_first 0 10 two_positions = Inr two_positions_spawned" by code_simp
  have g1: "Each_Get Position 1 two_positions_spawned = Inr 11" by code_simp
  have m1: "MakeEntity 1 (m_generations two_positions_spawned ! unat (1 :: u32)) = 1"
    by (simp add: two_positions_spawned_def MakeEntity_def INDEX_MASK_def INDEX_BITS_def)
  have f1: "spawn_at_first 1 11 two_positions_spawned = Inr two_positions_spawned"
    by (simp add: spawn_at_first_def)
  have l2: "Each_loop Position spawn_at_first [] two_positions_spawned = Inr ([], two_positions_spawned)"
    by simp
  have l1: "Each_loop Position spawn_at_first [1] two_positions_spawned = Inr ([1], two_positions_spawned)"
    by (rule Each_loop_step[OF _ m1 g1 f1 l2]) (simp add: two_positions_spawned_def)
  have "Each_loop Position spawn_at_first [0, 1] two_positions = Inr ([0, 1], two_positions_spawned)"
    by (rule Each_loop_step[OF two_positions_first f0 l1])
  then show ?thesis by (simp add: Each_nonempty[OF two_positions_pool] del: Each_loop.simps)
qed

theorem Each_snapshot_isolation_witness:
  "reg_inv two_positions \<and>
   Each Position spawn_at_first two_positions = Inr ([0, 1], two_positions_spawned) \<and>
   intact Position two_positions two_positions \<and>
   CreateEntity two_positions =
     Inr (2, \<lparr>m_alive = [0, 1, 2], m_generations = [0, 0, 0], m_freeList = [],
              m_pools = [(Position, \<lparr>m_sparse = [0, 1], m_dense = [0, 1], m_data = [10, 11]\<rparr>)]\<rparr>) \<and>
   AddComponent Position 2 99
       \<lparr>m_alive = [0, 1, 2], m_generations = [0, 0, 0], m_freeList = [],
          m_pools = [(Position, \<lparr>m_sparse = [0, 1], m_dense = [0, 1], m_data = [10, 11]\<rparr>)]\<rparr> =
     Inr two_positions_spawned \<and>
   [0, 1] = map (\<lambda>idx. MakeEntity idx (m_generations two_positions ! unat idx))
              (Each_snapshot Position two_positions) \<and>
   IsAlive two_positions 0 \<and> HasComponent Position 0 two_positions \<and>
   IsAlive two_positions 1 \<and> HasComponent Position 1 two_positions \<and>
   (2 :: EntityId) \<notin> set [0, 1]"
proof -
  let ?mid = "\<lparr>m_alive = [0, 1, 2], m_generations = [0, 0, 0], m_freeList = [],
          m_pools = [(Position, \<lparr>m_sparse = [0, 1], m_dense = [0, 1], m_data = [10, 11 :: nat]\<rparr>)]\<rparr>"
  have keep: "intact Position two_positions r2"
    if "intact Position two_positions r1" "spawn_at_first eid c r1 = Inr r2" for eid c r1 r2
  proof (cases "eid = 0")
    case True
    with that(2) have "spawn Position 99 r1 = Inr r2" by (simp add: spawn_at_first_def)
    with that(1) show ?thesis by (rule spawn_intact)
  next
    case False
    with that show ?thesis by (simp add: spawn_at_first_def)
  qed
  have start: "intact Position two_positions two_positions"
    using two_positions_inv two_positions_pool by (rule intact_start)
  have c: "CreateEntity two_positions = Inr (2, ?mid)" by code_simp
  have a: "AddComponent Position 2 99 ?mid = Inr two_positions_spawned" by code_simp
  have T: "[0, 1] = map (\<lambda>idx. MakeEntity idx (m_generations two_positions ! unat idx))
              (Each_snapshot Position two_positions) \<and>
         (\<forall>e \<in> set [0, 1]. IsAlive two_positions e \<and> HasComponent Position e two_positions) \<and>
         (\<forall>r1 e r2 v r3. intact Position two_positions r1 \<longrightarrow> CreateEntity r1 = Inr (e, r2) \<longrightarrow>
              AddComponent Position e v r2 = Inr r3 \<longrightarrow> e \<notin> set [0, 1])"
  proof (rule Each_snapshot_isolation[where fn = spawn_at_first and k = Position and r = two_positions])
    show "reg_inv two_positions" by (rule two_positions_inv)
    show "intact Position two_positions r2"
      if "idx \<in> set (Each_snapshot Position two_positions)" "intact Position two_positions r1"
        "Each_Get Position idx r1 = Inr c"
        "spawn_at_first (MakeEntity idx (m_generations two_positions ! unat idx)) c r1 = Inr r2"
      for idx c r1 r2
      by (rule keep[OF that(2,4)])
    show "Each Position spawn_at_first two_positions = Inr ([0, 1], two_positions_spawned)"
      by (rule Each_spawn_at_first_run)
  qed
  from T start c a have n: "(2 :: EntityId) \<notin> set [0, 1]" by blast
  from T have o: "IsAlive two_positions 0 \<and> HasComponent Position 0 two_positions \<and>
                  IsAlive two_positions 1 \<and> HasComponent Position 1 two_positions" by simp
  from T two_positions_inv Each_spawn_at_first_run start c a n o show ?thesis by blast
qed

text \<open>
  The claim as stated fails when the callback also destroys an entity of the snapshot:
  while slot 0 is visited it destroys the entity of slot 1, creates a new entity (which
  reuses slot 1, handle \<open>0x100001\<close>) and attaches a \<open>Position\<close>. The snapshot still holds
  index 1, so the new entity is visited in the same call.
\<close>

theorem Each_snapshot_isolation_counterexample:
  "reg_run [Call_CreateEntity, Call_CreateEntity,
            Call_AddComponent Position 0 10, Call_AddComponent Position 1 11] Registry_init =
     Inr two_positions \<and>
   Each Position respawn_slot1 two_positions = Inr ([0, 1048577], slot1_respawned) \<and>
   1048577 \<notin> set (m_alive two_positions) \<and>
   1048577 \<in> set (m_alive slot1_respawned) \<and>
   HasComponent Position 1048577 slot1_respawned"
proof -
  have f0: "respawn_slot1 0 10 two_positions = Inr slot1_respawned" by code_simp
  have g1: "Each_Get Position 1 slot1_respawned = Inr 99" by code_simp
  have m1: "MakeEntity 1 (m_generations slot1_respawned ! unat (1 :: u32)) = 1048577"
    by (simp add: slot1_respawned_def MakeEntity_def INDEX_MASK_def INDEX_BITS_def GEN_MASK_def
        GEN_BITS_def)
  have f1: "respawn_slot1 1048577 99 slot1_respawned = Inr slot1_respawned"
    by (simp add: respawn_slot1_def)
  have l2: "Each_loop Position respawn_slot1 [] slot1_respawned = Inr ([], slot1_respawned)"
    by simp
  have l1: "Each_loop Position respawn_slot1 [1] slot1_respawned = Inr ([1048577], slot1_respawned)"
    by (rule Each_loop_step[OF _ m1 g1 f1 l2]) (simp add: slot1_respawned_def)
  have "Each_loop Position respawn_slot1 [0, 1] two_positions = Inr ([0, 1048577], slot1_respawned)"
    by (rule Each_loop_step[OF two_positions_first f0 l1])
  then have e: "Each Position respawn_slot1 two_positions = Inr ([0, 1048577], slot1_respawned)"
    by (simp add: Each_nonempty[OF two_positions_pool] del: Each_loop.simps)
  have a: "1048577 \<notin> set (m_alive two_positions)" "1048577 \<in> set (m_alive slot1_respawned)"
    by (simp_all add: two_positions_def slot1_respawned_def)
  have h: "HasComponent Position 1048577 slot1_respawned" by code_simp
  from two_positions_reachable e a h show ?thesis by blast
qed
end
